theory Spec2Isabelle
  imports Main "HOL-Library.Multiset"
begin

section \<open>Data model\<close>

text \<open>
  The Python program keeps 81 \<open>Cell\<close> objects. They are shared: the rows of
  \<open>Board.board\<close> and every \<open>neighbors\<close> list hold references to the same objects, and
  the search mutates them in place. The model therefore has an explicit store from
  references to cell contents. A reference is the grid position \<open>(y, x)\<close> at which
  \<open>Board.__init__\<close> created the object; \<open>Board.board\<close> itself is never rebound, so
  \<open>self.board[y][x]\<close> always denotes the object created there. References outside the
  9x9 grid stand for cells that are not on the board; no loop of the program visits them.
\<close>

datatype error = IndexError | ValueError | AttributeError | RecursionError

type_synonym ref = "nat \<times> nat"

record cell =
  cell_id :: string
  cur_val :: int
  cell_values :: "int list"
  neighbors :: "ref list"
  assigned_neigh :: nat

type_synonym board = "ref \<Rightarrow> cell"

text \<open>\<open>Cell.__init__\<close>: unassigned, full domain, no neighbors.\<close>

definition Cell :: "string \<Rightarrow> cell" where
  "Cell i = \<lparr>cell_id = i, cur_val = 0, cell_values = [1, 2, 3, 4, 5, 6, 7, 8, 9],
             neighbors = [], assigned_neigh = 0\<rparr>"

text \<open>\<open>Cell.set_current\<close>, applied to the object behind a reference.\<close>

definition set_current :: "board \<Rightarrow> ref \<Rightarrow> int \<Rightarrow> board" where
  "set_current b r number = b(r := (b r)\<lparr>cur_val := number\<rparr>)"

text \<open>The identifiers written out in \<open>Board.__init__\<close> (box letter, row digit, column digit).\<close>

definition board_ids :: "string list list" where
  "board_ids =
   [[''A11'', ''A12'', ''A13'', ''B14'', ''B15'', ''B16'', ''C17'', ''C18'', ''C19''],
    [''A21'', ''A22'', ''A23'', ''B24'', ''B25'', ''B26'', ''C27'', ''C28'', ''C29''],
    [''A31'', ''A32'', ''A33'', ''B34'', ''B35'', ''B36'', ''C37'', ''C38'', ''C39''],
    [''D41'', ''D42'', ''D43'', ''E44'', ''E45'', ''E46'', ''F47'', ''F48'', ''F49''],
    [''D51'', ''D52'', ''D53'', ''E54'', ''E55'', ''E56'', ''F57'', ''F58'', ''F59''],
    [''D61'', ''D62'', ''D63'', ''E64'', ''E65'', ''E66'', ''F67'', ''F68'', ''F69''],
    [''G71'', ''G72'', ''G73'', ''H74'', ''H75'', ''H76'', ''I77'', ''I78'', ''I79''],
    [''G81'', ''G82'', ''G83'', ''H84'', ''H85'', ''H86'', ''I87'', ''I88'', ''I89''],
    [''G91'', ''G92'', ''G93'', ''H94'', ''H95'', ''H96'', ''I97'', ''I98'', ''I99'']]"

text \<open>
  \<open>Board.__init__\<close>. Off the grid the store holds a cell that nothing reads (its
  identifier is empty).
\<close>

definition Board :: board where
  "Board = (\<lambda>(y, x). Cell (if y < 9 \<and> x < 9 then board_ids ! y ! x else []))"

text \<open>
  The double loop \<open>for i in range(len(self)): for j in range(len(self))\<close> with
  \<open>len(self) = 9\<close>: the grid positions in row-major order. Inside these loops
  \<open>self[i,j]\<close> and \<open>self.board[i][j]\<close> are always in range.
\<close>

definition positions :: "ref list" where
  "positions = List.product [0, 1, 2, 3, 4, 5, 6, 7, 8] [0, 1, 2, 3, 4, 5, 6, 7, 8]"

subsection \<open>Errors as values\<close>

definition bnd :: "error + 'a \<Rightarrow> ('a \<Rightarrow> error + 'b) \<Rightarrow> error + 'b" where
  "bnd m f = (case m of Inl e \<Rightarrow> Inl e | Inr v \<Rightarrow> f v)"

text \<open>Python list indexing on a list of length 9: negative indices count from the end.\<close>

definition py_index :: "int \<Rightarrow> error + nat" where
  "py_index k =
     (if 0 \<le> k \<and> k < 9 then Inr (nat k)
      else if - 9 \<le> k \<and> k < 0 then Inr (nat (k + 9))
      else Inl IndexError)"

text \<open>\<open>Board.__getitem__\<close>: \<open>self.board[y][x]\<close>.\<close>

definition getitem :: "int \<times> int \<Rightarrow> error + ref" where
  "getitem tup =
     (case tup of (y, x) \<Rightarrow>
        bnd (py_index y) (\<lambda>i. bnd (py_index x) (\<lambda>j. Inr (i, j))))"

text \<open>Reading one character of a string: \<open>s[k]\<close> raises IndexError past the end.\<close>

definition str_at :: "string \<Rightarrow> nat \<Rightarrow> error + char" where
  "str_at s k = (if k < length s then Inr (s ! k) else Inl IndexError)"

text \<open>
  \<open>int(c)\<close> for a one-character string: the decimal digits convert, every other
  character of the (byte) alphabet raises ValueError.
\<close>

definition int_of_char :: "char \<Rightarrow> error + int" where
  "int_of_char c =
     (if c = CHR ''0'' then Inr 0 else if c = CHR ''1'' then Inr 1
      else if c = CHR ''2'' then Inr 2 else if c = CHR ''3'' then Inr 3
      else if c = CHR ''4'' then Inr 4 else if c = CHR ''5'' then Inr 5
      else if c = CHR ''6'' then Inr 6 else if c = CHR ''7'' then Inr 7
      else if c = CHR ''8'' then Inr 8 else if c = CHR ''9'' then Inr 9
      else Inl ValueError)"

section \<open>Board operations\<close>

subsection \<open>\<open>fill_initial_board\<close>\<close>

text \<open>
  The loop over the characters of \<open>str_board\<close>; \<open>cnt\<close> is the running \<open>count\<close>. In
  \<open>self[row,col].set_current(int(c))\<close> Python evaluates \<open>self[row,col]\<close> before the
  argument \<open>int(c)\<close>, so an index past the grid is reported before a bad digit.
\<close>

fun fill_loop :: "board \<Rightarrow> string \<Rightarrow> nat \<Rightarrow> error + board" where
  "fill_loop b [] cnt = Inr b"
| "fill_loop b (c # cs) cnt =
     (let row = cnt div 9; col = cnt mod 9 in
      if c \<noteq> CHR ''.'' then
        bnd (getitem (int row, int col)) (\<lambda>r.
        bnd (int_of_char c) (\<lambda>v.
        fill_loop (set_current b r v) cs (cnt + 1)))
      else fill_loop b cs (cnt + 1))"

definition fill_initial_board :: "board \<Rightarrow> string \<Rightarrow> error + board" where
  "fill_initial_board b str_board = fill_loop b str_board 0"

subsection \<open>\<open>find_neighbors\<close>\<close>

text \<open>
  One pass of the loop body for the cell at \<open>r\<close>. The accumulator is
  \<open>(neighbors, assigned)\<close>. The reads \<open>cell.id[k]\<close> and the short-circuit order of
  \<open>and\<close>/\<open>or\<close> are kept.
\<close>

definition visit_cell ::
  "board \<Rightarrow> char \<Rightarrow> char \<Rightarrow> char \<Rightarrow> ref \<Rightarrow> ref list \<times> nat \<Rightarrow> error + (ref list \<times> nat)" where
  "visit_cell b box row col r acc =
     (let cell = b r in
      bnd (str_at (cell_id cell) 1) (\<lambda>i1.
      bnd (if i1 = row then bnd (str_at (cell_id cell) 2) (\<lambda>i2. Inr (i2 = col))
           else Inr False) (\<lambda>itself.
      if itself then Inr acc
      else
        bnd (str_at (cell_id cell) 0) (\<lambda>i0.
        bnd (if i0 = box \<or> i1 = row then Inr True
             else bnd (str_at (cell_id cell) 2) (\<lambda>i2. Inr (i2 = col))) (\<lambda>related.
        if related then
          Inr (fst acc @ [r], if cur_val cell \<noteq> 0 then snd acc + 1 else snd acc)
        else Inr acc)))))"

fun find_neighbors_loop ::
  "board \<Rightarrow> char \<Rightarrow> char \<Rightarrow> char \<Rightarrow> ref list \<Rightarrow> ref list \<times> nat \<Rightarrow> error + (ref list \<times> nat)" where
  "find_neighbors_loop b box row col [] acc = Inr acc"
| "find_neighbors_loop b box row col (r # rs) acc =
     bnd (visit_cell b box row col r acc) (find_neighbors_loop b box row col rs)"

text \<open>
  \<open>find_neighbors\<close> takes the three characters of an identifier. It returns the list of
  neighbors and stores it, with the count of assigned neighbors, in the cell at
  \<open>(int(row) - 1, int(col) - 1)\<close>.
\<close>

definition find_neighbors ::
  "board \<Rightarrow> char \<Rightarrow> char \<Rightarrow> char \<Rightarrow> error + (ref list \<times> board)" where
  "find_neighbors b box row col =
     bnd (find_neighbors_loop b box row col positions ([], 0)) (\<lambda>acc.
     bnd (int_of_char row) (\<lambda>rv.
     bnd (int_of_char col) (\<lambda>cv.
     bnd (getitem (rv - 1, cv - 1)) (\<lambda>t.
     Inr (fst acc, b(t := (b t)\<lparr>neighbors := fst acc, assigned_neigh := snd acc\<rparr>))))))"

subsection \<open>\<open>initial_values\<close> (forward check)\<close>

text \<open>
  \<open>all_poss\<close> is a Python set of small integers; CPython iterates such a set in
  ascending order, also after removals, so \<open>list(all_poss)\<close> is the ascending list of
  what is left. The model keeps the set as that list.
\<close>

fun remove_assigned :: "board \<Rightarrow> ref list \<Rightarrow> int list \<Rightarrow> int list" where
  "remove_assigned b [] all_poss = all_poss"
| "remove_assigned b (neighbor # rest) all_poss =
     (let val = cur_val (b neighbor) in
      if val \<noteq> 0 \<and> val \<in> set all_poss
      then remove_assigned b rest (remove1 val all_poss)
      else remove_assigned b rest all_poss)"

definition initial_values :: "board \<Rightarrow> ref list \<Rightarrow> ref \<Rightarrow> int list \<times> board" where
  "initial_values b nbrs c =
     (let all_poss = remove_assigned b nbrs [1, 2, 3, 4, 5, 6, 7, 8, 9] in
      (all_poss, b(c := (b c)\<lparr>cell_values := all_poss\<rparr>)))"

subsection \<open>\<open>board_is_solved\<close>, \<open>is_allowed\<close>\<close>

definition board_is_solved :: "board \<Rightarrow> bool" where
  "board_is_solved b = list_all (\<lambda>r. cur_val (b r) \<noteq> 0) positions"

definition is_allowed :: "board \<Rightarrow> ref \<Rightarrow> int \<Rightarrow> bool" where
  "is_allowed b c v = list_all (\<lambda>i. cur_val (b i) \<noteq> v) (neighbors (b c))"

subsection \<open>\<open>degree\<close> and \<open>find_less_poss\<close>\<close>

definition degree :: "board \<Rightarrow> ref \<Rightarrow> ref \<Rightarrow> ref" where
  "degree b min_cell other_cell =
     (if assigned_neigh (b other_cell) > assigned_neigh (b min_cell) then other_cell
      else min_cell)"

text \<open>
  The body of the scan for the cell at \<open>r\<close>; the loop state is the board with
  \<open>min_len\<close> and \<open>min_cell\<close> (\<open>None\<close> as in the source).
\<close>

definition scan_cell :: "ref \<Rightarrow> board \<times> nat \<times> ref option \<Rightarrow> board \<times> nat \<times> ref option" where
  "scan_cell r st =
     (case st of (b, min_len, min_cell) \<Rightarrow>
      if cur_val (b r) = 0 then
        (let b1 = snd (initial_values b (neighbors (b r)) r);
             current_len = length (cell_values (b1 r))
         in case min_cell of
              None \<Rightarrow> (b1, current_len, Some r)
            | Some m \<Rightarrow>
                if current_len < min_len then (b1, current_len, Some r)
                else if current_len = min_len then
                  (let m' = degree b1 m r in (b1, length (cell_values (b1 m')), Some m'))
                else (b1, min_len, Some m))
      else st)"

definition find_less_poss :: "board \<Rightarrow> ref option \<times> board" where
  "find_less_poss b =
     (case fold scan_cell positions (b, 10, None) of
        (b', min_len, min_cell) \<Rightarrow> (min_cell, b'))"

subsection \<open>\<open>least_constr_val\<close>\<close>

text \<open>The inner loop: how many unassigned neighbors still have \<open>v\<close> in their domain.\<close>

definition constraints_imposed :: "board \<Rightarrow> ref \<Rightarrow> int \<Rightarrow> nat" where
  "constraints_imposed b c v =
     length (filter (\<lambda>n. cur_val (b n) = 0 \<and> v \<in> set (cell_values (b n))) (neighbors (b c)))"

text \<open>
  \<open>value_scores.sort(key=lambda x: x[1])\<close> is Python's stable sort by the score;
  \<open>sort_key\<close> is the stable insertion sort of the library.
\<close>

definition least_constr_val :: "board \<Rightarrow> ref \<Rightarrow> int list" where
  "least_constr_val b c =
     map fst (sort_key snd (map (\<lambda>v. (v, constraints_imposed b c v)) (cell_values (b c))))"

section \<open>The search\<close>

text \<open>
  \<open>backtrack_with_min_val\<close> and its \<open>for\<close> loop. The first argument is the number of
  stack frames still available: a call with none left is Python's RecursionError. The
  unused parameter \<open>pcell\<close> is dropped. The result is what the call returns or raises,
  the board at that moment, and the boards after every \<open>set_current\<close> the call and its
  descendants made, in order (the statements in between write \<open>cell.values\<close> only).
\<close>

fun backtrack_with_min_val :: "nat \<Rightarrow> board \<Rightarrow> (error + bool) \<times> board \<times> board list"
  and try_values :: "nat \<Rightarrow> ref \<Rightarrow> int list \<Rightarrow> board \<Rightarrow> (error + bool) \<times> board \<times> board list"
  where
  "backtrack_with_min_val 0 b = (Inl RecursionError, b, [])"
| "backtrack_with_min_val (Suc d) b =
     (if board_is_solved b then (Inr True, b, [])
      else
        case find_less_poss b of
          (None, b1) \<Rightarrow> (Inl AttributeError, b1, [])
        | (Some min_cell, b1) \<Rightarrow>
            (let b2 = snd (initial_values b1 (neighbors (b1 min_cell)) min_cell) in
             if cell_values (b2 min_cell) = [] then (Inr False, b2, [])
             else
               (let ordered_values =
                      (if length (cell_values (b2 min_cell)) > 1
                       then least_constr_val b2 min_cell
                       else cell_values (b2 min_cell))
                in try_values d min_cell ordered_values b2)))"
| "try_values d min_cell [] b =
     (let b' = set_current b min_cell 0 in (Inr False, b', [b']))"
| "try_values d min_cell (i # rest) b =
     (if is_allowed b min_cell i then
        (let b1 = set_current b min_cell i in
         case backtrack_with_min_val d b1 of
           (Inr True, b2, tr) \<Rightarrow> (Inr True, b2, b1 # tr)
         | (Inr False, b2, tr) \<Rightarrow>
             (case try_values d min_cell rest b2 of
                (res, b3, tr') \<Rightarrow> (res, b3, b1 # tr @ tr'))
         | (Inl e, b2, tr) \<Rightarrow> (Inl e, b2, b1 # tr))
      else try_values d min_cell rest b)"

definition solve_back :: "nat \<Rightarrow> board \<Rightarrow> (error + bool) \<times> board \<times> board list" where
  "solve_back d board = backtrack_with_min_val d board"

section \<open>Setting up a puzzle\<close>

text \<open>
  The set-up loop of \<open>main\<close> for one puzzle: for every cell in row-major order,
  \<open>find_neighbors\<close> on the three characters of its identifier, then
  \<open>fill_initial_board\<close> with the whole clue string (every time round), then
  \<open>initial_values\<close> on the cell with the list just returned.
\<close>

fun setup_loop :: "string \<Rightarrow> ref list \<Rightarrow> board \<Rightarrow> error + board" where
  "setup_loop puzzle [] b = Inr b"
| "setup_loop puzzle (r # rs) b =
     (let cell = b r in
      bnd (str_at (cell_id cell) 0) (\<lambda>box.
      bnd (str_at (cell_id cell) 1) (\<lambda>row.
      bnd (str_at (cell_id cell) 2) (\<lambda>col.
      bnd (find_neighbors b box row col) (\<lambda>found.
      bnd (fill_initial_board (snd found) puzzle) (\<lambda>filled_board.
      setup_loop puzzle rs (snd (initial_values filled_board (fst found) r))))))))"

definition main_setup :: "string \<Rightarrow> error + board" where
  "main_setup puzzle = setup_loop puzzle positions Board"


section \<open>Concrete inputs\<close>

text \<open>A fresh board on which two cells have been assigned.\<close>

definition ex_board :: board where
  "ex_board = set_current (set_current Board (0, 1) 5) (1, 0) 7"

text \<open>
  Clue strings, row by row. \<open>puzzle_one\<close> is a solved grid with the first cell left
  open. \<open>puzzle_dup\<close> is the same with the clue 3 of the first row replaced by a second
  4. \<open>puzzle_two\<close> leaves the first two cells open and has a second 3 in the fourth
  row, so that both open cells can only take 5.
\<close>

definition puzzle_one :: string where
  "puzzle_one =
     ''.34678912'' @ ''672195348'' @ ''198342567'' @
     ''859761423'' @ ''426853791'' @ ''713924856'' @
     ''961537284'' @ ''287419635'' @ ''345286179''"

definition puzzle_dup :: string where
  "puzzle_dup =
     ''.44678912'' @ ''672195348'' @ ''198342567'' @
     ''859761423'' @ ''426853791'' @ ''713924856'' @
     ''961537284'' @ ''287419635'' @ ''345286179''"

definition puzzle_two :: string where
  "puzzle_two =
     ''..4678912'' @ ''672195348'' @ ''198342567'' @
     ''839761423'' @ ''426853791'' @ ''713924856'' @
     ''961537284'' @ ''287419635'' @ ''345286179''"

section \<open>Notions used in the statements\<close>

text \<open>
  The domain the forward check computes for a cell from its own neighbors list, the board
  after that check has been applied to the unassigned cells of a list, and the
  unassigned cells of a list in the order of the list.
\<close>

definition fresh_domain :: "board \<Rightarrow> ref \<Rightarrow> int list" where
  "fresh_domain b r = fst (initial_values b (neighbors (b r)) r)"

definition refresh :: "board \<Rightarrow> ref list \<Rightarrow> board" where
  "refresh b ps =
     (\<lambda>r. if r \<in> set ps \<and> cur_val (b r) = 0 then (b r)\<lparr>cell_values := fresh_domain b r\<rparr> else b r)"

definition unassigned :: "board \<Rightarrow> ref list \<Rightarrow> ref list" where
  "unassigned b ps = filter (\<lambda>r. cur_val (b r) = 0) ps"

text \<open>
  What the scan of \<open>find_less_poss\<close> knows after the cells \<open>ps\<close>: the incumbent is an
  unassigned cell of least domain size, \<open>min_len\<close> is that size, and among the cells of
  that size it is the first one with the greatest \<open>assigned_neigh\<close>.
\<close>

definition scan_inv :: "board \<Rightarrow> ref list \<Rightarrow> nat \<Rightarrow> ref option \<Rightarrow> bool" where
  "scan_inv b ps ml mc =
     (if unassigned b ps = [] then mc = None \<and> ml = 10
      else \<exists>m. mc = Some m \<and> m \<in> set (unassigned b ps) \<and> ml = length (fresh_domain b m)
             \<and> (\<forall>u\<in>set (unassigned b ps). ml \<le> length (fresh_domain b u))
             \<and> (\<exists>T1 T2. filter (\<lambda>u. length (fresh_domain b u) = ml) (unassigned b ps) = T1 @ m # T2
                    \<and> (\<forall>t\<in>set T1. assigned_neigh (b t) < assigned_neigh (b m))
                    \<and> (\<forall>t\<in>set T2. assigned_neigh (b t) \<le> assigned_neigh (b m))))"

text \<open>The local variable \<open>ordered_values\<close> of \<open>backtrack_with_min_val\<close>.\<close>

definition ordered_values :: "board \<Rightarrow> ref \<Rightarrow> int list" where
  "ordered_values b m =
     (if length (cell_values (b m)) > 1 then least_constr_val b m else cell_values (b m))"

text \<open>
  Two boards with the same constraint graph (neighbors lists, identifiers and
  \<open>assigned_neigh\<close> snapshots), and what a call of the search, and of its loop for the
  selected cell \<open>mc\<close>, leave behind: the graph is untouched, assigned cells keep their
  value at every recorded moment, a \<open>False\<close> result restores every value, and the only
  exception is the one for an exhausted stack.
\<close>

definition same_graph :: "board \<Rightarrow> board \<Rightarrow> bool" where
  "same_graph b b' =
     (\<forall>r. neighbors (b' r) = neighbors (b r) \<and> cell_id (b' r) = cell_id (b r)
          \<and> assigned_neigh (b' r) = assigned_neigh (b r))"

definition search_post :: "board \<Rightarrow> (error + bool) \<Rightarrow> board \<Rightarrow> board list \<Rightarrow> bool" where
  "search_post b res b' tr =
     (same_graph b b' \<and> (\<forall>s\<in>set tr. same_graph b s)
      \<and> (\<forall>r. cur_val (b r) \<noteq> 0 \<longrightarrow>
             cur_val (b' r) = cur_val (b r) \<and> (\<forall>s\<in>set tr. cur_val (s r) = cur_val (b r)))
      \<and> (res = Inr False \<longrightarrow> (\<forall>r. cur_val (b' r) = cur_val (b r)))
      \<and> (\<forall>e. res = Inl e \<longrightarrow> e = RecursionError))"

definition loop_post :: "ref \<Rightarrow> board \<Rightarrow> (error + bool) \<Rightarrow> board \<Rightarrow> board list \<Rightarrow> bool" where
  "loop_post mc b res b' tr =
     (same_graph b b' \<and> (\<forall>s\<in>set tr. same_graph b s)
      \<and> (\<forall>r. r \<noteq> mc \<and> cur_val (b r) \<noteq> 0 \<longrightarrow>
             cur_val (b' r) = cur_val (b r) \<and> (\<forall>s\<in>set tr. cur_val (s r) = cur_val (b r)))
      \<and> (res = Inr False \<longrightarrow> (\<forall>r. r \<noteq> mc \<longrightarrow> cur_val (b' r) = cur_val (b r)) \<and> cur_val (b' mc) = 0)
      \<and> (\<forall>e. res = Inl e \<longrightarrow> e = RecursionError))"

text \<open>
  The number of unassigned cells of the grid, and that number not counting one cell.
\<close>

definition n_unassigned :: "board \<Rightarrow> nat" where
  "n_unassigned b = length (unassigned b positions)"

definition others_unassigned :: "board \<Rightarrow> ref \<Rightarrow> nat" where
  "others_unassigned b mc = length (filter (\<lambda>r. r \<noteq> mc \<and> cur_val (b r) = 0) positions)"

text \<open>
  The constraint graph in terms of positions: two different cells are related when they
  share the box, the row or the column. \<open>peers_list\<close> lists the cells related to one
  cell in the order \<open>find_neighbors\<close> meets them. A board has the identifiers of
  \<open>Board.__init__\<close> when \<open>ids_ok\<close> holds; their three characters are \<open>box_char\<close> and
  \<open>digit_char\<close> of row and column.
\<close>

definition related :: "ref \<Rightarrow> ref \<Rightarrow> bool" where
  "related r r' =
     (r' \<noteq> r \<and> ((fst r' div 3 = fst r div 3 \<and> snd r' div 3 = snd r div 3)
                 \<or> fst r' = fst r \<or> snd r' = snd r))"

definition peers_list :: "ref \<Rightarrow> ref list" where
  "peers_list r = filter (related r) positions"

definition ids_ok :: "board \<Rightarrow> bool" where
  "ids_ok b = (\<forall>r\<in>set positions. cell_id (b r) = cell_id (Board r))"

definition box_char :: "ref \<Rightarrow> char" where
  "box_char r = ''ABCDEFGHI'' ! (3 * (fst r div 3) + snd r div 3)"

definition digit_char :: "nat \<Rightarrow> char" where
  "digit_char k = ''123456789'' ! k"

text \<open>
  What the search relies on and keeps: the neighbors lists are those of the constraint
  graph, no cell of the grid holds the nonzero value of one of its neighbors, and every
  value is in 0..9.
\<close>

definition graph_ok :: "board \<Rightarrow> bool" where
  "graph_ok b = (\<forall>r\<in>set positions. set (neighbors (b r)) = set (peers_list r))"

definition consistent :: "board \<Rightarrow> bool" where
  "consistent b =
     (\<forall>r\<in>set positions. \<forall>n\<in>set (neighbors (b r)).
        cur_val (b r) \<noteq> 0 \<longrightarrow> cur_val (b n) \<noteq> cur_val (b r))"

definition in_range :: "board \<Rightarrow> bool" where
  "in_range b = (\<forall>r\<in>set positions. 0 \<le> cur_val (b r) \<and> cur_val (b r) \<le> 9)"

definition good :: "board \<Rightarrow> bool" where
  "good b = (graph_ok b \<and> consistent b \<and> in_range b)"

text \<open>A unit: nine different cells of the grid, any two of them related.\<close>

definition is_unit :: "ref list \<Rightarrow> bool" where
  "is_unit u = (length u = 9 \<and> distinct u \<and> set u \<subseteq> set positions
                \<and> (\<forall>r\<in>set u. \<forall>r'\<in>set u. r \<noteq> r' \<longrightarrow> related r r'))"

text \<open>The rows, the columns and the 3x3 boxes.\<close>

definition row_cells :: "nat \<Rightarrow> ref list" where
  "row_cells y = map (\<lambda>x. (y, x)) [0, 1, 2, 3, 4, 5, 6, 7, 8]"

definition col_cells :: "nat \<Rightarrow> ref list" where
  "col_cells x = map (\<lambda>y. (y, x)) [0, 1, 2, 3, 4, 5, 6, 7, 8]"

definition box_cells :: "nat \<Rightarrow> nat \<Rightarrow> ref list" where
  "box_cells p q = map (\<lambda>(i, j). (3 * p + i, 3 * q + j)) (List.product [0, 1, 2] [0, 1, 2])"

text \<open>
  Clue strings. \<open>cell_index\<close> is the row-major index of a cell. \<open>accepted_from\<close> follows
  the loop of \<open>fill_initial_board\<close> and says that no character makes it raise: every
  character is a dot, or a decimal digit at an index below 81. \<open>filled_from\<close> is the
  board such a string leaves. \<open>well_formed\<close> is the input format of the specification:
  exactly 81 symbols, each a dot or one of 1..9.
\<close>

definition cell_index :: "ref \<Rightarrow> nat" where
  "cell_index r = 9 * fst r + snd r"

definition is_digit :: "char \<Rightarrow> bool" where
  "is_digit c = (c \<in> set ''0123456789'')"

definition digit_val :: "char \<Rightarrow> int" where
  "digit_val c = (case int_of_char c of Inr v \<Rightarrow> v | Inl e \<Rightarrow> 0)"

fun accepted_from :: "nat \<Rightarrow> string \<Rightarrow> bool" where
  "accepted_from cnt [] = True"
| "accepted_from cnt (c # cs) =
     ((c = CHR ''.'' \<or> (cnt < 81 \<and> is_digit c)) \<and> accepted_from (cnt + 1) cs)"

definition accepted :: "string \<Rightarrow> bool" where
  "accepted s = accepted_from 0 s"

definition filled_from :: "board \<Rightarrow> nat \<Rightarrow> string \<Rightarrow> board" where
  "filled_from b cnt s =
     (\<lambda>r. if r \<in> set positions \<and> cnt \<le> cell_index r \<and> cell_index r < cnt + length s
              \<and> s ! (cell_index r - cnt) \<noteq> CHR ''.''
           then (b r)\<lparr>cur_val := digit_val (s ! (cell_index r - cnt))\<rparr>
           else b r)"

definition filled :: "board \<Rightarrow> string \<Rightarrow> board" where
  "filled b s = filled_from b 0 s"

definition well_formed :: "string \<Rightarrow> bool" where
  "well_formed s = (length s = 81 \<and> (\<forall>c\<in>set s. c \<in> set ''.123456789''))"

text \<open>
  The value a clue string gives a cell (0 where it has a dot or no symbol), the effect
  of one \<open>find_neighbors\<close> call on the cell it is called for, one round of the set-up
  loop, and the board the set-up leaves for a puzzle (a fresh board if it raises).
\<close>

definition clue :: "string \<Rightarrow> ref \<Rightarrow> int" where
  "clue s r =
     (if r \<in> set positions \<and> cell_index r < length s \<and> s ! cell_index r \<noteq> CHR ''.''
      then digit_val (s ! cell_index r) else 0)"

definition linked :: "board \<Rightarrow> ref \<Rightarrow> board" where
  "linked b r =
     b(r := (b r)\<lparr>neighbors := peers_list r,
                   assigned_neigh := length (filter (\<lambda>n. cur_val (b n) \<noteq> 0) (peers_list r))\<rparr>)"

definition setup_step :: "string \<Rightarrow> ref \<Rightarrow> board \<Rightarrow> board" where
  "setup_step puzzle r b = snd (initial_values (filled (linked b r) puzzle) (peers_list r) r)"

definition board_of :: "string \<Rightarrow> board" where
  "board_of puzzle = (case main_setup puzzle of Inr b \<Rightarrow> b | Inl e \<Rightarrow> Board)"

text \<open>
  A board given in closed form by a clue string: the clue values and the neighbors
  lists of the constraint graph, nothing else. The forward check of a cell only reads
  these.
\<close>

definition clue_board :: "string \<Rightarrow> board" where
  "clue_board p =
     (\<lambda>r. \<lparr>cell_id = [], cur_val = clue p r, cell_values = [],
            neighbors = peers_list r, assigned_neigh = 0\<rparr>)"

section \<open>Basic facts\<close>

subsection \<open>The grid and the forward check\<close>

lemma positions_set: "set positions = {0..<9} \<times> {0..<9}"
  unfolding positions_def set_product
proof -
  have "set [0, 1, 2, 3, 4, 5, 6, 7, 8::nat] = {0..<9}" by auto
  then show "set [0, 1, 2, 3, 4, 5, 6, 7, 8::nat] \<times> set [0, 1, 2, 3, 4, 5, 6, 7, 8::nat] = {0..<9} \<times> {0..<9}"
    by (simp only:)
qed

lemma positions_distinct: "distinct positions"
  unfolding positions_def by (rule distinct_product) simp_all

lemma positions_length: "length positions = 81"
  by (simp add: positions_def)

lemma remove_assigned_set:
  "distinct ap \<Longrightarrow>
   set (remove_assigned b ns ap) = set ap - {v. v \<noteq> 0 \<and> (\<exists>n\<in>set ns. cur_val (b n) = v)}"
proof (induction ns arbitrary: ap)
  case Nil
  then show ?case by simp
next
  case (Cons n ns)
  then show ?case
    by (auto simp: Let_def distinct_remove1 set_remove1_eq)
qed

lemma remove_assigned_distinct: "distinct ap \<Longrightarrow> distinct (remove_assigned b ns ap)"
  by (induction ns arbitrary: ap) (auto simp: Let_def distinct_remove1)

lemma remove_assigned_sorted: "sorted ap \<Longrightarrow> sorted (remove_assigned b ns ap)"
  by (induction ns arbitrary: ap) (auto simp: Let_def sorted_remove1)

lemma remove_assigned_cong:
  "(\<And>n. n \<in> set ns \<Longrightarrow> cur_val (b n) = cur_val (b' n)) \<Longrightarrow>
   remove_assigned b ns ap = remove_assigned b' ns ap"
  by (induction ns arbitrary: ap) (auto simp: Let_def)

lemma initial_values_fst:
  "fst (initial_values b ns c) = remove_assigned b ns [1, 2, 3, 4, 5, 6, 7, 8, 9]"
  by (simp add: initial_values_def Let_def)

lemma initial_values_snd:
  "snd (initial_values b ns c) = b(c := (b c)\<lparr>cell_values := fst (initial_values b ns c)\<rparr>)"
  by (simp add: initial_values_def Let_def)

lemma initial_values_fields [simp]:
  "cur_val (snd (initial_values b ns c) r) = cur_val (b r)"
  "neighbors (snd (initial_values b ns c) r) = neighbors (b r)"
  "cell_id (snd (initial_values b ns c) r) = cell_id (b r)"
  "assigned_neigh (snd (initial_values b ns c) r) = assigned_neigh (b r)"
  by (simp_all add: initial_values_def Let_def)

lemma initial_values_values:
  "cell_values (snd (initial_values b ns c) r) =
     (if r = c then fst (initial_values b ns c) else cell_values (b r))"
  by (simp add: initial_values_def Let_def)

lemma initial_values_set:
  "set (fst (initial_values b ns c)) =
     {1..9} - {v. v \<noteq> 0 \<and> (\<exists>n\<in>set ns. cur_val (b n) = v)}"
proof -
  have "set [1, 2, 3, 4, 5, 6, 7, 8, 9 :: int] = {1..9}" by auto
  then show ?thesis
    by (simp only: initial_values_fst) (subst remove_assigned_set, simp, simp)
qed

lemma initial_values_eq:
  "initial_values b nbrs c =
     (remove_assigned b nbrs [1, 2, 3, 4, 5, 6, 7, 8, 9],
      b(c := (b c)\<lparr>cell_values := remove_assigned b nbrs [1, 2, 3, 4, 5, 6, 7, 8, 9]\<rparr>))"
  by (simp add: initial_values_def Let_def)

subsection \<open>The scan of \<open>find_less_poss\<close>\<close>

lemma refresh_fields [simp]:
  "cur_val (refresh b ps r) = cur_val (b r)"
  "neighbors (refresh b ps r) = neighbors (b r)"
  "cell_id (refresh b ps r) = cell_id (b r)"
  "assigned_neigh (refresh b ps r) = assigned_neigh (b r)"
  by (simp_all add: refresh_def)

lemma refresh_values:
  "cell_values (refresh b ps r) =
     (if r \<in> set ps \<and> cur_val (b r) = 0 then fresh_domain b r else cell_values (b r))"
  by (simp add: refresh_def)

lemma refresh_Nil [simp]: "refresh b [] = b"
  by (simp add: refresh_def)

lemma fresh_domain_cong:
  "(\<And>r. cur_val (b' r) = cur_val (b r)) \<Longrightarrow> neighbors (b' c) = neighbors (b c) \<Longrightarrow>
   fresh_domain b' c = fresh_domain b c"
  unfolding fresh_domain_def initial_values_fst
  by (simp add: remove_assigned_cong [of _ b' b])

lemma fresh_domain_refresh [simp]: "fresh_domain (refresh b ps) c = fresh_domain b c"
  by (rule fresh_domain_cong) simp_all

lemma refresh_snoc:
  "refresh b (ps @ [r]) =
     (if cur_val (b r) = 0
      then snd (initial_values (refresh b ps) (neighbors (refresh b ps r)) r)
      else refresh b ps)"
proof -
  have "fst (initial_values (refresh b ps) (neighbors (b r)) r) = fresh_domain b r"
    using fresh_domain_refresh [of b ps r] by (simp add: fresh_domain_def)
  then show ?thesis
    by (auto simp: refresh_def initial_values_snd fun_eq_iff)
qed

lemma fresh_domain_length: "length (fresh_domain b r) \<le> 9"
proof -
  have "distinct (fresh_domain b r)"
    unfolding fresh_domain_def initial_values_fst by (rule remove_assigned_distinct) simp
  then have "length (fresh_domain b r) = card (set (fresh_domain b r))"
    by (simp add: distinct_card)
  also have "\<dots> \<le> card {1..9::int}"
    by (rule card_mono) (auto simp: fresh_domain_def initial_values_set)
  finally show ?thesis by simp
qed

lemma scan_invI:
  assumes "m \<in> set (unassigned b ps)" "ml = length (fresh_domain b m)"
    "\<forall>u\<in>set (unassigned b ps). ml \<le> length (fresh_domain b u)"
    "filter (\<lambda>u. length (fresh_domain b u) = ml) (unassigned b ps) = T1 @ m # T2"
    "\<forall>t\<in>set T1. assigned_neigh (b t) < assigned_neigh (b m)"
    "\<forall>t\<in>set T2. assigned_neigh (b t) \<le> assigned_neigh (b m)"
  shows "scan_inv b ps ml (Some m)"
proof -
  from assms(1) have "unassigned b ps \<noteq> []" by auto
  then show ?thesis
    unfolding scan_inv_def using assms by (simp only: if_False) blast
qed

lemma scan_cell_step:
  assumes inv: "scan_inv b ps ml mc"
  shows "\<exists>ml' mc'. scan_cell r (refresh b ps, ml, mc) = (refresh b (ps @ [r]), ml', mc')
                   \<and> scan_inv b (ps @ [r]) ml' mc'"
proof (cases "cur_val (b r) = 0")
  case False
  then have U': "unassigned b (ps @ [r]) = unassigned b ps"
    by (simp add: unassigned_def)
  have "scan_inv b (ps @ [r]) ml mc"
    using inv unfolding scan_inv_def U' .
  moreover have "scan_cell r (refresh b ps, ml, mc) = (refresh b (ps @ [r]), ml, mc)"
    using False by (simp add: scan_cell_def refresh_snoc)
  ultimately show ?thesis by blast
next
  case r0: True
  let ?b1 = "refresh b (ps @ [r])"
  let ?len = "length (fresh_domain b r)"
  have b1: "snd (initial_values (refresh b ps) (neighbors (refresh b ps r)) r) = ?b1"
    using r0 by (simp add: refresh_snoc)
  have cl: "length (cell_values (?b1 r)) = ?len"
    using r0 by (simp add: refresh_values)
  have U: "unassigned b (ps @ [r]) = unassigned b ps @ [r]"
    using r0 by (simp add: unassigned_def)
  show ?thesis
  proof (cases "unassigned b ps = []")
    case True
    with inv have "mc = None" by (simp add: scan_inv_def)
    then have "scan_cell r (refresh b ps, ml, mc) = (?b1, ?len, Some r)"
      using r0 b1 cl by (simp add: scan_cell_def Let_def)
    moreover have "scan_inv b (ps @ [r]) ?len (Some r)"
      by (rule scan_invI [where ?T1.0 = "[]" and ?T2.0 = "[]"]) (simp_all add: U True)
    ultimately show ?thesis by blast
  next
    case False
    with inv obtain m T1 T2 where m: "mc = Some m" "m \<in> set (unassigned b ps)"
      "ml = length (fresh_domain b m)"
      and mn: "\<forall>u\<in>set (unassigned b ps). ml \<le> length (fresh_domain b u)"
      and T: "filter (\<lambda>u. length (fresh_domain b u) = ml) (unassigned b ps) = T1 @ m # T2"
      "\<forall>t\<in>set T1. assigned_neigh (b t) < assigned_neigh (b m)"
      "\<forall>t\<in>set T2. assigned_neigh (b t) \<le> assigned_neigh (b m)"
      by (auto simp: scan_inv_def)
    from m(2) have m0: "cur_val (b m) = 0" "m \<in> set ps"
      by (simp_all add: unassigned_def)
    have clm: "length (cell_values (?b1 m)) = ml"
      using m0 m(3) by (simp add: refresh_values)
    consider (lt) "?len < ml" | (eq) "?len = ml" | (gt) "ml < ?len" by linarith
    then show ?thesis
    proof cases
      case lt
      then have "scan_cell r (refresh b ps, ml, mc) = (?b1, ?len, Some r)"
        using r0 b1 cl m(1) by (simp add: scan_cell_def Let_def)
      moreover have "filter (\<lambda>u. length (fresh_domain b u) = ?len) (unassigned b ps) = []"
        using mn lt by (auto simp: filter_empty_conv)
      then have "scan_inv b (ps @ [r]) ?len (Some r)"
        using mn lt
        by (intro scan_invI [where ?T1.0 = "[]" and ?T2.0 = "[]"]) (auto simp: U)
      ultimately show ?thesis by blast
    next
      case gt
      then have "scan_cell r (refresh b ps, ml, mc) = (?b1, ml, Some m)"
        using r0 b1 cl m(1) by (simp add: scan_cell_def Let_def)
      moreover have "scan_inv b (ps @ [r]) ml (Some m)"
        using mn gt m T
        by (intro scan_invI [where ?T1.0 = T1 and ?T2.0 = T2]) (auto simp: U)
      ultimately show ?thesis by blast
    next
      case eq
      show ?thesis
      proof (cases "assigned_neigh (b r) > assigned_neigh (b m)")
        case True
        then have d: "degree ?b1 m r = r" by (simp add: degree_def)
        have "scan_cell r (refresh b ps, ml, mc) = (?b1, ?len, Some r)"
          using r0 b1 cl m(1) eq d by (simp add: scan_cell_def Let_def)
        moreover have "filter (\<lambda>u. length (fresh_domain b u) = ?len) (unassigned b ps @ [r])
                         = (T1 @ m # T2) @ r # []"
          using T(1) eq by simp
        then have "scan_inv b (ps @ [r]) ?len (Some r)"
          using mn eq T(2,3) True
          by (intro scan_invI [where ?T1.0 = "T1 @ m # T2" and ?T2.0 = "[]"]) (auto simp: U)
        ultimately show ?thesis by blast
      next
        case False
        then have d: "degree ?b1 m r = m" by (simp add: degree_def)
        have "scan_cell r (refresh b ps, ml, mc) = (?b1, ml, Some m)"
          using r0 b1 cl clm m(1) eq d by (simp add: scan_cell_def Let_def)
        moreover have "filter (\<lambda>u. length (fresh_domain b u) = ml) (unassigned b ps @ [r])
                         = T1 @ m # (T2 @ [r])"
          using T(1) eq by simp
        then have "scan_inv b (ps @ [r]) ml (Some m)"
          using mn eq T(2,3) False m
          by (intro scan_invI [where ?T1.0 = T1 and ?T2.0 = "T2 @ [r]"]) (auto simp: U)
        ultimately show ?thesis by blast
      qed
    qed
  qed
qed

lemma scan_fold:
  "\<exists>ml mc. fold scan_cell ps (b, 10, None) = (refresh b ps, ml, mc) \<and> scan_inv b ps ml mc"
proof (induction ps rule: rev_induct)
  case Nil
  show ?case by (simp add: scan_inv_def unassigned_def)
next
  case (snoc r ps)
  then obtain ml mc where "fold scan_cell ps (b, 10, None) = (refresh b ps, ml, mc)"
    "scan_inv b ps ml mc" by blast
  with scan_cell_step [of b ps ml mc r] show ?case by auto
qed

lemma find_less_poss_eq:
  "\<exists>ml mc. find_less_poss b = (mc, refresh b positions) \<and> scan_inv b positions ml mc"
  using scan_fold [of positions b] by (auto simp: find_less_poss_def)

lemma board_is_solved_iff:
  "board_is_solved b \<longleftrightarrow> unassigned b positions = []"
  by (auto simp: board_is_solved_def unassigned_def list_all_iff filter_empty_conv)

subsection \<open>Value ordering and one step of the search\<close>

lemma insort_key_map_fst:
  "\<forall>p\<in>set ys. snd p = f (fst p) \<Longrightarrow>
   map fst (insort_key snd (x, f x) ys) = insort_key f x (map fst ys)"
  by (induction ys) auto

lemma sort_key_pairs:
  "map fst (sort_key snd (map (\<lambda>v. (v, f v)) xs)) = sort_key f xs"
proof (induction xs)
  case Nil
  show ?case by simp
next
  case (Cons x xs)
  have "\<forall>p\<in>set (sort_key snd (map (\<lambda>v. (v, f v)) xs)). snd p = f (fst p)"
    by auto
  then show ?case
    using Cons by (simp add: insort_key_map_fst)
qed

lemma least_constr_val_eq:
  "least_constr_val b c = sort_key (constraints_imposed b c) (cell_values (b c))"
  by (simp add: least_constr_val_def sort_key_pairs)

lemma least_constr_val_set [simp]: "set (least_constr_val b c) = set (cell_values (b c))"
  by (simp add: least_constr_val_eq)

lemma find_less_poss_unsolved:
  assumes "\<not> board_is_solved b"
  shows "\<exists>m. find_less_poss b = (Some m, refresh b positions)
           \<and> m \<in> set positions \<and> cur_val (b m) = 0"
proof -
  from find_less_poss_eq [of b] obtain ml mc where
    f: "find_less_poss b = (mc, refresh b positions)" and i: "scan_inv b positions ml mc"
    by blast
  from assms have "unassigned b positions \<noteq> []" by (simp add: board_is_solved_iff)
  with i obtain m where "mc = Some m" "m \<in> set (unassigned b positions)"
    by (auto simp: scan_inv_def)
  with f show ?thesis by (auto simp: unassigned_def)
qed

lemma refresh_again:
  assumes "m \<in> set ps" "cur_val (b m) = 0"
  shows "snd (initial_values (refresh b ps) (neighbors (refresh b ps m)) m) = refresh b ps"
proof -
  have "fst (initial_values (refresh b ps) (neighbors (refresh b ps m)) m) = fresh_domain b m"
    using fresh_domain_refresh [of b ps m] by (simp add: fresh_domain_def)
  with assms show ?thesis
    by (auto simp: initial_values_snd refresh_def fun_eq_iff)
qed

lemma ordered_values_set [simp]: "set (ordered_values b m) = set (cell_values (b m))"
  by (simp add: ordered_values_def)

lemma backtrack_Suc_unsolved:
  assumes "\<not> board_is_solved b"
  shows "\<exists>m. find_less_poss b = (Some m, refresh b positions)
           \<and> m \<in> set positions \<and> cur_val (b m) = 0
           \<and> backtrack_with_min_val (Suc d) b =
               (if fresh_domain b m = [] then (Inr False, refresh b positions, [])
                else try_values d m (ordered_values (refresh b positions) m) (refresh b positions))"
proof -
  from find_less_poss_unsolved [OF assms] obtain m where
    m: "find_less_poss b = (Some m, refresh b positions)" "m \<in> set positions" "cur_val (b m) = 0"
    by blast
  have v: "cell_values (refresh b positions m) = fresh_domain b m"
    using m by (simp add: refresh_values)
  have "backtrack_with_min_val (Suc d) b =
               (if fresh_domain b m = [] then (Inr False, refresh b positions, [])
                else try_values d m (ordered_values (refresh b positions) m) (refresh b positions))"
    using assms m(1) refresh_again [of m positions b, OF m(2,3)] v
    by (simp add: Let_def ordered_values_def)
  with m show ?thesis by blast
qed

lemma backtrack_solved:
  "board_is_solved b \<Longrightarrow> backtrack_with_min_val (Suc d) b = (Inr True, b, [])"
  by simp

lemma fresh_domain_range: "set (fresh_domain b m) \<subseteq> {1..9}"
  by (auto simp: fresh_domain_def initial_values_set)

subsection \<open>What the search leaves behind\<close>

lemma same_graph_refl [simp]: "same_graph b b"
  by (simp add: same_graph_def)

lemma same_graph_trans: "same_graph a b \<Longrightarrow> same_graph b c \<Longrightarrow> same_graph a c"
  by (simp add: same_graph_def)

lemma same_graph_set_current [simp]: "same_graph b (set_current b r v)"
  by (simp add: same_graph_def set_current_def)

lemma same_graph_refresh [simp]: "same_graph b (refresh b ps)"
  by (simp add: same_graph_def)

lemma set_current_cur_val [simp]:
  "cur_val (set_current b r v r') = (if r' = r then v else cur_val (b r'))"
  by (simp add: set_current_def)

lemma set_current_fields [simp]:
  "neighbors (set_current b r v r') = neighbors (b r')"
  "cell_values (set_current b r v r') = cell_values (b r')"
  "cell_id (set_current b r v r') = cell_id (b r')"
  "assigned_neigh (set_current b r v r') = assigned_neigh (b r')"
  by (simp_all add: set_current_def)

lemma search_post_graph:
  "search_post b res b' tr \<Longrightarrow> same_graph b b' \<and> (\<forall>s\<in>set tr. same_graph b s)"
  by (simp add: search_post_def)

lemma search_post_keeps:
  "search_post b res b' tr \<Longrightarrow> cur_val (b r) \<noteq> 0 \<Longrightarrow>
   cur_val (b' r) = cur_val (b r) \<and> (\<forall>s\<in>set tr. cur_val (s r) = cur_val (b r))"
  unfolding search_post_def by blast

lemma search_post_undo:
  "search_post b (Inr False) b' tr \<Longrightarrow> cur_val (b' r) = cur_val (b r)"
  unfolding search_post_def by blast

lemma search_post_error:
  "search_post b (Inl e) b' tr \<Longrightarrow> e = RecursionError"
  by (simp add: search_post_def)

lemma loop_post_graph:
  "loop_post mc b res b' tr \<Longrightarrow> same_graph b b' \<and> (\<forall>s\<in>set tr. same_graph b s)"
  by (simp add: loop_post_def)

lemma loop_post_keeps:
  "loop_post mc b res b' tr \<Longrightarrow> r \<noteq> mc \<Longrightarrow> cur_val (b r) \<noteq> 0 \<Longrightarrow>
   cur_val (b' r) = cur_val (b r) \<and> (\<forall>s\<in>set tr. cur_val (s r) = cur_val (b r))"
  unfolding loop_post_def by blast

lemma loop_post_undo:
  "loop_post mc b (Inr False) b' tr \<Longrightarrow>
   cur_val (b' r) = (if r = mc then 0 else cur_val (b r))"
  unfolding loop_post_def by (simp del: split_paired_All)

lemma loop_post_error:
  "loop_post mc b (Inl e) b' tr \<Longrightarrow> e = RecursionError"
  by (simp add: loop_post_def)

lemma loop_postI:
  assumes "same_graph b b'" "\<And>s. s \<in> set tr \<Longrightarrow> same_graph b s"
    "\<And>r. r \<noteq> mc \<Longrightarrow> cur_val (b r) \<noteq> 0 \<Longrightarrow> cur_val (b' r) = cur_val (b r)"
    "\<And>r s. r \<noteq> mc \<Longrightarrow> cur_val (b r) \<noteq> 0 \<Longrightarrow> s \<in> set tr \<Longrightarrow> cur_val (s r) = cur_val (b r)"
    "\<And>r. res = Inr False \<Longrightarrow> cur_val (b' r) = (if r = mc then 0 else cur_val (b r))"
    "\<And>e. res = Inl e \<Longrightarrow> e = RecursionError"
  shows "loop_post mc b res b' tr"
  unfolding loop_post_def using assms by (simp del: split_paired_All)

lemma search_postI:
  assumes "same_graph b b'" "\<And>s. s \<in> set tr \<Longrightarrow> same_graph b s"
    "\<And>r. cur_val (b r) \<noteq> 0 \<Longrightarrow> cur_val (b' r) = cur_val (b r)"
    "\<And>r s. cur_val (b r) \<noteq> 0 \<Longrightarrow> s \<in> set tr \<Longrightarrow> cur_val (s r) = cur_val (b r)"
    "\<And>r. res = Inr False \<Longrightarrow> cur_val (b' r) = cur_val (b r)"
    "\<And>e. res = Inl e \<Longrightarrow> e = RecursionError"
  shows "search_post b res b' tr"
  unfolding search_post_def using assms by (simp del: split_paired_All)

lemma loop_post_step:
  assumes p: "search_post (set_current b mc i) r1 b2 tr1" and nf: "r1 \<noteq> Inr False"
  shows "loop_post mc b r1 b2 (set_current b mc i # tr1)"
proof (rule loop_postI)
  let ?b1 = "set_current b mc i"
  have g1: "same_graph b ?b1" by simp
  from search_post_graph [OF p] have g2: "same_graph ?b1 b2"
    and gs: "\<And>s. s \<in> set tr1 \<Longrightarrow> same_graph ?b1 s" by blast+
  show "same_graph b b2" using g1 g2 by (rule same_graph_trans)
  show "same_graph b s" if "s \<in> set (?b1 # tr1)" for s
  proof (cases "s = ?b1")
    case True
    then show ?thesis by simp
  next
    case False
    with that have "s \<in> set tr1" by simp
    from g1 gs [OF this] show ?thesis by (rule same_graph_trans)
  qed
  have k: "cur_val (b2 r) = cur_val (b r) \<and> (\<forall>s\<in>set tr1. cur_val (s r) = cur_val (b r))"
    if "r \<noteq> mc" "cur_val (b r) \<noteq> 0" for r
    using search_post_keeps [OF p, of r] that by simp
  show "cur_val (b2 r) = cur_val (b r)" if "r \<noteq> mc" "cur_val (b r) \<noteq> 0" for r
    using k [OF that] by simp
  show "cur_val (s r) = cur_val (b r)"
    if "r \<noteq> mc" "cur_val (b r) \<noteq> 0" "s \<in> set (?b1 # tr1)" for r s
  proof (cases "s = ?b1")
    case True
    then show ?thesis using that(1) by simp
  next
    case False
    with that(3) have "s \<in> set tr1" by simp
    with k [OF that(1,2)] show ?thesis by blast
  qed
  show "cur_val (b2 r) = (if r = mc then 0 else cur_val (b r))" if "r1 = Inr False" for r
    using that nf by simp
  show "e = RecursionError" if "r1 = Inl e" for e
    using p that by (simp add: search_post_error)
qed

lemma loop_post_step_fail:
  assumes p: "search_post (set_current b mc i) (Inr False) b2 tr1"
    and q: "loop_post mc b2 r3 b3 tr3"
  shows "loop_post mc b r3 b3 (set_current b mc i # tr1 @ tr3)"
proof (rule loop_postI)
  let ?b1 = "set_current b mc i"
  have g1: "same_graph b ?b1" by simp
  from search_post_graph [OF p] have g2: "same_graph ?b1 b2"
    and gs: "\<And>s. s \<in> set tr1 \<Longrightarrow> same_graph ?b1 s" by blast+
  from loop_post_graph [OF q] have g3: "same_graph b2 b3"
    and gs3: "\<And>s. s \<in> set tr3 \<Longrightarrow> same_graph b2 s" by blast+
  have g12: "same_graph b b2" using g1 g2 by (rule same_graph_trans)
  show "same_graph b b3" using g12 g3 by (rule same_graph_trans)
  show "same_graph b s" if "s \<in> set (?b1 # tr1 @ tr3)" for s
  proof -
    from that consider "s = ?b1" | "s \<in> set tr1" | "s \<in> set tr3" by auto
    then show ?thesis
    proof cases
      case 1
      then show ?thesis by simp
    next
      case 2
      from g1 gs [OF 2] show ?thesis by (rule same_graph_trans)
    next
      case 3
      from g12 gs3 [OF 3] show ?thesis by (rule same_graph_trans)
    qed
  qed
  have same: "cur_val (b2 r) = cur_val (?b1 r)" for r
    using p by (rule search_post_undo)
  have k: "cur_val (b2 r) = cur_val (b r) \<and> (\<forall>s\<in>set tr1. cur_val (s r) = cur_val (b r))"
    if "r \<noteq> mc" "cur_val (b r) \<noteq> 0" for r
    using search_post_keeps [OF p, of r] that by simp
  have k3: "cur_val (b3 r) = cur_val (b r) \<and> (\<forall>s\<in>set tr3. cur_val (s r) = cur_val (b r))"
    if "r \<noteq> mc" "cur_val (b r) \<noteq> 0" for r
  proof -
    from that have "cur_val (b2 r) = cur_val (b r)" using same [of r] by simp
    with loop_post_keeps [OF q, of r] that show ?thesis by simp
  qed
  show "cur_val (b3 r) = cur_val (b r)" if "r \<noteq> mc" "cur_val (b r) \<noteq> 0" for r
    using k3 [OF that] by simp
  show "cur_val (s r) = cur_val (b r)"
    if "r \<noteq> mc" "cur_val (b r) \<noteq> 0" "s \<in> set (?b1 # tr1 @ tr3)" for r s
  proof -
    from that(3) consider "s = ?b1" | "s \<in> set tr1" | "s \<in> set tr3" by auto
    then show ?thesis
    proof cases
      case 1
      then show ?thesis using that(1) by simp
    next
      case 2
      with k [OF that(1,2)] show ?thesis by blast
    next
      case 3
      with k3 [OF that(1,2)] show ?thesis by blast
    qed
  qed
  show "cur_val (b3 r) = (if r = mc then 0 else cur_val (b r))" if "r3 = Inr False" for r
  proof -
    from q that have "cur_val (b3 r) = (if r = mc then 0 else cur_val (b2 r))"
      by (simp only: loop_post_undo)
    then show ?thesis using same [of r] by simp
  qed
  show "e = RecursionError" if "r3 = Inl e" for e
    using q that by (simp add: loop_post_error)
qed

lemma loop_post_Nil: "loop_post mc b (Inr False) (set_current b mc 0) [set_current b mc 0]"
proof (rule loop_postI)
  show "same_graph b (set_current b mc 0)" by simp
  show "same_graph b s" if "s \<in> set [set_current b mc 0]" for s
    using that by simp
  show "cur_val (set_current b mc 0 r) = cur_val (b r)" if "r \<noteq> mc" for r
    using that by simp
  show "cur_val (s r) = cur_val (b r)" if "r \<noteq> mc" "s \<in> set [set_current b mc 0]" for r s
    using that by simp
  show "cur_val (set_current b mc 0 r) = (if r = mc then 0 else cur_val (b r))" for r
    by simp
  show "e = RecursionError" if "Inr False = Inl e" for e :: error
    using that by simp
qed

lemma try_values_Nil:
  "try_values d mc [] b = (Inr False, set_current b mc 0, [set_current b mc 0])"
  by (simp add: Let_def)

lemma try_values_skip:
  "\<not> is_allowed b mc i \<Longrightarrow> try_values d mc (i # rest) b = try_values d mc rest b"
  by simp

lemma try_values_step:
  assumes "is_allowed b mc i" "backtrack_with_min_val d (set_current b mc i) = (r1, b2, tr1)"
  shows "try_values d mc (i # rest) b =
           (if r1 = Inr False
            then (fst (try_values d mc rest b2), fst (snd (try_values d mc rest b2)),
                  set_current b mc i # tr1 @ snd (snd (try_values d mc rest b2)))
            else (r1, b2, set_current b mc i # tr1))"
proof (cases r1)
  case (Inl e)
  with assms show ?thesis by (simp add: Let_def)
next
  case (Inr ok)
  with assms show ?thesis
    by (cases ok) (simp_all add: Let_def split: prod.split)
qed

lemma try_values_post:
  assumes IH: "\<And>b res b' tr. backtrack_with_min_val d b = (res, b', tr) \<Longrightarrow> search_post b res b' tr"
  shows "try_values d mc vs b = (res, b', tr) \<Longrightarrow> loop_post mc b res b' tr"
proof (induction vs arbitrary: b res b' tr)
  case Nil
  then have "res = Inr False" "b' = set_current b mc 0" "tr = [set_current b mc 0]"
    unfolding try_values_Nil by auto
  then show ?case by (simp only: loop_post_Nil)
next
  case (Cons i rest)
  show ?case
  proof (cases "is_allowed b mc i")
    case False
    with Cons.prems have "try_values d mc rest b = (res, b', tr)"
      by (simp add: try_values_skip del: try_values.simps)
    then show ?thesis by (rule Cons.IH)
  next
    case True
    let ?b1 = "set_current b mc i"
    obtain r1 b2 tr1 where bt: "backtrack_with_min_val d ?b1 = (r1, b2, tr1)"
      by (cases "backtrack_with_min_val d ?b1") auto
    from IH [OF bt] have p: "search_post ?b1 r1 b2 tr1" .
    note st = try_values_step [OF True bt, of rest]
    show ?thesis
    proof (cases "r1 = Inr False")
      case False
      with st Cons.prems have e: "res = r1" "b' = b2" "tr = ?b1 # tr1" by simp_all
      show ?thesis unfolding e using p False by (rule loop_post_step)
    next
      case True
      obtain r3 b3 tr3 where tv: "try_values d mc rest b2 = (r3, b3, tr3)"
        by (cases "try_values d mc rest b2") auto
      with st True Cons.prems have e: "res = r3" "b' = b3" "tr = ?b1 # tr1 @ tr3"
        by simp_all
      from Cons.IH [OF tv] have q: "loop_post mc b2 r3 b3 tr3" .
      from p True have p': "search_post ?b1 (Inr False) b2 tr1" by simp
      show ?thesis unfolding e using p' q by (rule loop_post_step_fail)
    qed
  qed
qed

lemma backtrack_post:
  "backtrack_with_min_val d b = (res, b', tr) \<Longrightarrow> search_post b res b' tr"
proof (induction d arbitrary: b res b' tr)
  case 0
  then have "res = Inl RecursionError" "b' = b" "tr = []" by simp_all
  then show ?case by (simp add: search_post_def)
next
  case (Suc d)
  show ?case
  proof (cases "board_is_solved b")
    case True
    with Suc.prems have "res = Inr True" "b' = b" "tr = []" by simp_all
    then show ?thesis by (simp add: search_post_def)
  next
    case False
    from backtrack_Suc_unsolved [OF False, of d] obtain m where
      m: "m \<in> set positions" "cur_val (b m) = 0"
      and bt: "backtrack_with_min_val (Suc d) b =
               (if fresh_domain b m = [] then (Inr False, refresh b positions, [])
                else try_values d m (ordered_values (refresh b positions) m) (refresh b positions))"
      by blast
    show ?thesis
    proof (cases "fresh_domain b m = []")
      case True
      with bt Suc.prems have "res = Inr False" "b' = refresh b positions" "tr = []"
        by simp_all
      then show ?thesis by (simp add: search_post_def)
    next
      case False
      with bt Suc.prems
      have "try_values d m (ordered_values (refresh b positions) m) (refresh b positions) = (res, b', tr)"
        by simp
      from try_values_post [OF Suc.IH this]
      have q: "loop_post m (refresh b positions) res b' tr" .
      have g: "same_graph b (refresh b positions)" by simp
      show ?thesis
      proof (rule search_postI)
        show "same_graph b b'"
          using g loop_post_graph [OF q] by (blast intro: same_graph_trans)
        show "same_graph b s" if "s \<in> set tr" for s
          using that g loop_post_graph [OF q] by (blast intro: same_graph_trans)
        have k: "cur_val (b' r) = cur_val (b r) \<and> (\<forall>s\<in>set tr. cur_val (s r) = cur_val (b r))"
          if "cur_val (b r) \<noteq> 0" for r
        proof -
          from that m(2) have "r \<noteq> m" by auto
          with loop_post_keeps [OF q, of r] that show ?thesis by simp
        qed
        show "cur_val (b' r) = cur_val (b r)" if "cur_val (b r) \<noteq> 0" for r
          using k [OF that] by simp
        show "cur_val (s r) = cur_val (b r)" if "cur_val (b r) \<noteq> 0" "s \<in> set tr" for r s
          using k [OF that(1)] that(2) by blast
        show "cur_val (b' r) = cur_val (b r)" if "res = Inr False" for r
        proof -
          from q that have "cur_val (b' r) = (if r = m then 0 else cur_val (refresh b positions r))"
            by (simp only: loop_post_undo)
          then show ?thesis using m(2) by simp
        qed
        show "e = RecursionError" if "res = Inl e" for e
          using loop_post_error [of m "refresh b positions" e b' tr] q that by simp
      qed
    qed
  qed
qed

subsection \<open>Stack depth\<close>

lemma backtrack_0: "backtrack_with_min_val 0 b = (Inl RecursionError, b, [])"
  by simp

declare backtrack_with_min_val.simps [simp del] try_values.simps [simp del]

lemma n_unassigned_cong:
  "(\<And>r. cur_val (b' r) = cur_val (b r)) \<Longrightarrow> n_unassigned b' = n_unassigned b"
  by (simp add: n_unassigned_def unassigned_def)

lemma others_unassigned_cong:
  "(\<And>r. r \<noteq> mc \<Longrightarrow> cur_val (b' r) = cur_val (b r)) \<Longrightarrow>
   others_unassigned b' mc = others_unassigned b mc"
  unfolding others_unassigned_def by (rule arg_cong [where f = length], rule filter_cong) auto

lemma n_unassigned_set_current:
  "i \<noteq> 0 \<Longrightarrow> n_unassigned (set_current b mc i) = others_unassigned b mc"
  unfolding n_unassigned_def others_unassigned_def unassigned_def
  by (rule arg_cong [where f = length], rule filter_cong) auto

lemma n_unassigned_split:
  assumes "mc \<in> set positions" "cur_val (b mc) = 0"
  shows "n_unassigned b = Suc (others_unassigned b mc)"
proof -
  have "length (filter (\<lambda>r. cur_val (b r) = 0) ps) =
        length (filter (\<lambda>r. r \<noteq> mc \<and> cur_val (b r) = 0) ps) + (if mc \<in> set ps then 1 else 0)"
    if "distinct ps" for ps
    using that assms(2) by (induction ps) auto
  from this [OF positions_distinct] assms(1) show ?thesis
    by (simp add: n_unassigned_def others_unassigned_def unassigned_def)
qed

lemma n_unassigned_le: "n_unassigned b \<le> 81"
proof -
  have "n_unassigned b \<le> length positions"
    by (simp add: n_unassigned_def unassigned_def)
  then show ?thesis by (simp add: positions_length)
qed

lemma try_values_returns:
  assumes IH: "\<And>b. n_unassigned b < d \<Longrightarrow> \<exists>ok. fst (backtrack_with_min_val d b) = Inr ok"
    and z: "0 \<notin> set vs"
  shows "others_unassigned b mc < d \<Longrightarrow> \<exists>ok. fst (try_values d mc vs b) = Inr ok"
  using z
proof (induction vs arbitrary: b)
  case Nil
  show ?case by (auto simp: try_values_Nil)
next
  case (Cons i rest)
  from Cons.prems have i: "i \<noteq> 0" and z': "0 \<notin> set rest" by auto
  show ?case
  proof (cases "is_allowed b mc i")
    case False
    then show ?thesis using Cons.IH [OF Cons.prems(1) z'] by (simp add: try_values_skip)
  next
    case True
    let ?b1 = "set_current b mc i"
    obtain r1 b2 tr1 where bt: "backtrack_with_min_val d ?b1 = (r1, b2, tr1)"
      by (cases "backtrack_with_min_val d ?b1") auto
    have "n_unassigned ?b1 < d"
      using Cons.prems(1) i by (simp add: n_unassigned_set_current)
    from IH [OF this] bt obtain ok where r1: "r1 = Inr ok" by auto
    note st = try_values_step [OF True bt, of rest]
    show ?thesis
    proof (cases ok)
      case True
      with st r1 show ?thesis by auto
    next
      case False
      from backtrack_post [OF bt] r1 False
      have "cur_val (b2 r) = cur_val (?b1 r)" for r
        by (simp only: search_post_undo)
      then have "others_unassigned b2 mc = others_unassigned b mc"
        by (intro others_unassigned_cong) simp
      with Cons.prems(1) have "others_unassigned b2 mc < d" by simp
      from Cons.IH [OF this z'] st r1 False show ?thesis by simp
    qed
  qed
qed

lemma backtrack_returns:
  "n_unassigned b < d \<Longrightarrow> \<exists>ok. fst (backtrack_with_min_val d b) = Inr ok"
proof (induction d arbitrary: b)
  case 0
  then show ?case by simp
next
  case (Suc d)
  show ?case
  proof (cases "board_is_solved b")
    case True
    then show ?thesis by (auto simp: backtrack_solved)
  next
    case False
    from backtrack_Suc_unsolved [OF False, of d] obtain m where
      m: "m \<in> set positions" "cur_val (b m) = 0"
      and bt: "backtrack_with_min_val (Suc d) b =
               (if fresh_domain b m = [] then (Inr False, refresh b positions, [])
                else try_values d m (ordered_values (refresh b positions) m) (refresh b positions))"
      by blast
    show ?thesis
    proof (cases "fresh_domain b m = []")
      case True
      with bt show ?thesis by auto
    next
      case False
      have "others_unassigned (refresh b positions) m = others_unassigned b m"
        by (rule others_unassigned_cong) simp
      with n_unassigned_split [of m b, OF m] Suc.prems
      have lt: "others_unassigned (refresh b positions) m < d" by simp
      have "set (ordered_values (refresh b positions) m) = set (fresh_domain b m)"
        using m by (simp add: refresh_values)
      with fresh_domain_range [of b m]
      have z: "0 \<notin> set (ordered_values (refresh b positions) m)" by auto
      from try_values_returns [OF Suc.IH z lt] bt False show ?thesis by simp
    qed
  qed
qed

lemma try_values_more_fuel:
  assumes IH: "\<And>b ok b' tr. backtrack_with_min_val d b = (Inr ok, b', tr) \<Longrightarrow>
                 backtrack_with_min_val (Suc d) b = (Inr ok, b', tr)"
  shows "try_values d mc vs b = (Inr ok, b', tr) \<Longrightarrow> try_values (Suc d) mc vs b = (Inr ok, b', tr)"
proof (induction vs arbitrary: b ok b' tr)
  case Nil
  then show ?case by (auto simp: try_values_Nil)
next
  case (Cons i rest)
  show ?case
  proof (cases "is_allowed b mc i")
    case False
    with Cons.prems have "try_values d mc rest b = (Inr ok, b', tr)"
      by (simp add: try_values_skip del: try_values.simps)
    from Cons.IH [OF this] False show ?thesis
      by (simp add: try_values_skip del: try_values.simps)
  next
    case True
    let ?b1 = "set_current b mc i"
    obtain r1 b2 tr1 where bt: "backtrack_with_min_val d ?b1 = (r1, b2, tr1)"
      by (cases "backtrack_with_min_val d ?b1") auto
    note st = try_values_step [OF True bt, of rest]
    from st Cons.prems obtain ok1 where r1: "r1 = Inr ok1"
      by (cases r1) (auto split: if_splits)
    from IH bt r1 have bt': "backtrack_with_min_val (Suc d) ?b1 = (r1, b2, tr1)" by simp
    note st' = try_values_step [OF True bt', of rest]
    show ?thesis
    proof (cases ok1)
      case True
      with st st' r1 Cons.prems show ?thesis by simp
    next
      case False
      obtain r3 b3 tr3 where tv: "try_values d mc rest b2 = (r3, b3, tr3)"
        by (cases "try_values d mc rest b2") auto
      with st r1 False Cons.prems have e: "r3 = Inr ok" "b' = b3" "tr = ?b1 # tr1 @ tr3"
        by simp_all
      from Cons.IH [of b2 ok b3 tr3] tv e have "try_values (Suc d) mc rest b2 = (Inr ok, b3, tr3)"
        by simp
      with st' r1 False e show ?thesis by simp
    qed
  qed
qed

lemma backtrack_more_fuel:
  "backtrack_with_min_val d b = (Inr ok, b', tr) \<Longrightarrow>
   backtrack_with_min_val (Suc d) b = (Inr ok, b', tr)"
proof (induction d arbitrary: b ok b' tr)
  case 0
  then show ?case by (simp add: backtrack_0)
next
  case (Suc d)
  show ?case
  proof (cases "board_is_solved b")
    case True
    with Suc.prems show ?thesis by (simp add: backtrack_solved)
  next
    case False
    from backtrack_Suc_unsolved [OF False] obtain m where
      f: "find_less_poss b = (Some m, refresh b positions)"
      by blast
    from backtrack_Suc_unsolved [OF False, of d] f
    have bt: "backtrack_with_min_val (Suc d) b =
               (if fresh_domain b m = [] then (Inr False, refresh b positions, [])
                else try_values d m (ordered_values (refresh b positions) m) (refresh b positions))"
      by auto
    from backtrack_Suc_unsolved [OF False, of "Suc d"] f
    have bt': "backtrack_with_min_val (Suc (Suc d)) b =
               (if fresh_domain b m = [] then (Inr False, refresh b positions, [])
                else try_values (Suc d) m (ordered_values (refresh b positions) m) (refresh b positions))"
      by auto
    show ?thesis
    proof (cases "fresh_domain b m = []")
      case True
      with bt bt' Suc.prems show ?thesis by simp
    next
      case False
      with bt Suc.prems
      have "try_values d m (ordered_values (refresh b positions) m) (refresh b positions) = (Inr ok, b', tr)"
        by simp
      from try_values_more_fuel [OF Suc.IH this] bt' False show ?thesis by simp
    qed
  qed
qed

lemma backtrack_fuel_enough:
  assumes "n_unassigned b < d"
  shows "backtrack_with_min_val d b = backtrack_with_min_val (Suc (n_unassigned b)) b"
proof -
  let ?n = "Suc (n_unassigned b)"
  obtain r b' tr where e: "backtrack_with_min_val ?n b = (r, b', tr)"
    by (cases "backtrack_with_min_val ?n b") auto
  from backtrack_returns [of b ?n] e obtain ok where r: "r = Inr ok" by auto
  have "backtrack_with_min_val (?n + k) b = (Inr ok, b', tr)" for k
    using e r backtrack_more_fuel by (induction k) auto
  from this [of "d - ?n"] assms e r show ?thesis by simp
qed

subsection \<open>The constraint graph\<close>

lemma Board_ids:
  "\<forall>r\<in>set positions. cell_id (Board r) = [box_char r, digit_char (fst r), digit_char (snd r)]"
  by code_simp

lemma digit_chars: "\<forall>y\<in>{0..<9}. int_of_char (digit_char y) = Inr (int y + 1)"
  by code_simp

lemma ids_ok_id:
  assumes "ids_ok b" "r \<in> set positions"
  shows "cell_id (b r) = [box_char r, digit_char (fst r), digit_char (snd r)]"
  using assms Board_ids by (simp add: ids_ok_def)

lemma digit_inj:
  assumes "y < 9" "y' < 9"
  shows "digit_char y' = digit_char y \<longleftrightarrow> y' = y"
proof -
  have "distinct ''123456789''" by simp
  moreover have "length ''123456789'' = 9" by simp
  ultimately show ?thesis using assms unfolding digit_char_def by (simp only: nth_eq_iff_index_eq)
qed

lemma base3:
  "c < 3 \<Longrightarrow> c' < 3 \<Longrightarrow> (3 * a' + c' = 3 * a + (c::nat)) = (a' = a \<and> c' = c)"
  by arith

lemma box_inj:
  assumes "r \<in> set positions" "r' \<in> set positions"
  shows "box_char r' = box_char r
         \<longleftrightarrow> fst r' div 3 = fst r div 3 \<and> snd r' div 3 = snd r div 3"
proof -
  from assms have lt: "fst r < 9" "snd r < 9" "fst r' < 9" "snd r' < 9"
    by (auto simp: positions_set)
  then have q: "fst r div 3 < 3" "snd r div 3 < 3" "fst r' div 3 < 3" "snd r' div 3 < 3"
    by (simp_all add: less_mult_imp_div_less)
  have d: "distinct ''ABCDEFGHI''" by simp
  have l: "length ''ABCDEFGHI'' = 9" by simp
  have a: "3 * (fst r div 3) + snd r div 3 < 9" "3 * (fst r' div 3) + snd r' div 3 < 9"
    using q by linarith+
  have "box_char r' = box_char r
         \<longleftrightarrow> 3 * (fst r' div 3) + snd r' div 3 = 3 * (fst r div 3) + snd r div 3"
    unfolding box_char_def using d l a by (simp only: nth_eq_iff_index_eq)
  also have "\<dots> \<longleftrightarrow> fst r' div 3 = fst r div 3 \<and> snd r' div 3 = snd r div 3"
    using q(2,4) by (rule base3)
  finally show ?thesis .
qed

lemma visit_cell_ok:
  assumes ok: "ids_ok b" and r: "r \<in> set positions" and r': "r' \<in> set positions"
  shows "visit_cell b (box_char r) (digit_char (fst r)) (digit_char (snd r)) r' acc =
           Inr (if related r r'
                then (fst acc @ [r'], if cur_val (b r') \<noteq> 0 then snd acc + 1 else snd acc)
                else acc)"
proof -
  from r r' have lt: "fst r < 9" "snd r < 9" "fst r' < 9" "snd r' < 9"
    by (auto simp: positions_set)
  have e: "r' = r \<longleftrightarrow> fst r' = fst r \<and> snd r' = snd r"
    by (auto simp: prod_eq_iff)
  have s: "str_at (cell_id (b r')) 0 = Inr (box_char r')"
    "str_at (cell_id (b r')) 1 = Inr (digit_char (fst r'))"
    "str_at (cell_id (b r')) 2 = Inr (digit_char (snd r'))"
    by (simp_all add: str_at_def ids_ok_id [OF ok r'])
  show ?thesis
    unfolding visit_cell_def Let_def s
    by (simp add: bnd_def related_def e digit_inj [OF lt(1,3)] digit_inj [OF lt(2,4)]
        box_inj [OF r r'])
qed

lemma find_neighbors_loop_ok:
  assumes ok: "ids_ok b" and r: "r \<in> set positions"
  shows "set ps \<subseteq> set positions \<Longrightarrow>
         find_neighbors_loop b (box_char r) (digit_char (fst r)) (digit_char (snd r)) ps acc =
           Inr (fst acc @ filter (related r) ps,
                snd acc + length (filter (\<lambda>n. cur_val (b n) \<noteq> 0) (filter (related r) ps)))"
proof (induction ps arbitrary: acc)
  case Nil
  show ?case by simp
next
  case (Cons p ps)
  then have p: "p \<in> set positions" and ps: "set ps \<subseteq> set positions" by auto
  show ?case
    by (simp add: visit_cell_ok [OF ok r p] bnd_def Cons.IH [OF ps])
qed

lemma getitem_grid:
  "r \<in> set positions \<Longrightarrow> getitem (int (fst r), int (snd r)) = Inr r"
  by (auto simp: getitem_def py_index_def bnd_def positions_set)

lemma find_neighbors_ok:
  assumes ok: "ids_ok b" and r: "r \<in> set positions"
  shows "find_neighbors b (box_char r) (digit_char (fst r)) (digit_char (snd r)) =
           Inr (peers_list r,
                b(r := (b r)\<lparr>neighbors := peers_list r,
                              assigned_neigh := length (filter (\<lambda>n. cur_val (b n) \<noteq> 0) (peers_list r))\<rparr>))"
proof -
  from r have lt: "fst r \<in> {0..<9}" "snd r \<in> {0..<9}" by (auto simp: positions_set)
  have d: "int_of_char (digit_char (fst r)) = Inr (int (fst r) + 1)"
    "int_of_char (digit_char (snd r)) = Inr (int (snd r) + 1)"
    using digit_chars lt by blast+
  show ?thesis
    unfolding find_neighbors_def find_neighbors_loop_ok [OF ok r subset_refl] d
    by (simp add: bnd_def getitem_grid [OF r] peers_list_def)
qed

lemma peers_list_set: "set (peers_list r) = {r' \<in> set positions. related r r'}"
  by (simp add: peers_list_def)

lemma related_sym: "related r r' \<longleftrightarrow> related r' r"
  by (auto simp: related_def)

lemma peers_list_distinct: "distinct (peers_list r)"
  by (simp add: peers_list_def positions_distinct)

lemma peers_list_length: "\<forall>r\<in>set positions. length (peers_list r) = 20"
  by code_simp

subsection \<open>Soundness of a successful search\<close>

lemma same_graph_neighbors: "same_graph b b' \<Longrightarrow> neighbors (b' r) = neighbors (b r)"
  unfolding same_graph_def by blast

lemma good_cong:
  assumes "good b" "same_graph b b'" "\<And>r. cur_val (b' r) = cur_val (b r)"
  shows "good b'"
  using assms(1) unfolding good_def graph_ok_def consistent_def in_range_def
  by (simp add: same_graph_neighbors [OF assms(2)] assms(3))

lemma good_refresh: "good b \<Longrightarrow> good (refresh b ps)"
  by (rule good_cong [of b]) simp_all

lemma good_set_current:
  assumes g: "good b" and mc: "mc \<in> set positions" and a: "is_allowed b mc v"
    and v: "1 \<le> v" "v \<le> 9"
  shows "good (set_current b mc v)"
proof -
  from g have go: "graph_ok b" and co: "consistent b" and ra: "in_range b"
    by (simp_all add: good_def)
  from a have al: "\<And>n. n \<in> set (neighbors (b mc)) \<Longrightarrow> cur_val (b n) \<noteq> v"
    by (simp add: is_allowed_def list_all_iff)
  have nb: "set (neighbors (b r)) = {r' \<in> set positions. related r r'}" if "r \<in> set positions" for r
    using go that by (simp add: graph_ok_def peers_list_set)
  have "graph_ok (set_current b mc v)"
    using go by (simp add: graph_ok_def)
  moreover have "in_range (set_current b mc v)"
    using ra v by (simp add: in_range_def)
  moreover have "consistent (set_current b mc v)"
    unfolding consistent_def
  proof (intro ballI impI)
    fix r n
    assume r: "r \<in> set positions" and n: "n \<in> set (neighbors (set_current b mc v r))"
      and nz: "cur_val (set_current b mc v r) \<noteq> 0"
    from n have n': "n \<in> set (neighbors (b r))" by simp
    with nb [OF r] have rel: "related r n" and ng: "n \<in> set positions" by auto
    show "cur_val (set_current b mc v n) \<noteq> cur_val (set_current b mc v r)"
    proof (cases "r = mc")
      case True
      with rel have "n \<noteq> mc" by (auto simp: related_def)
      with True al [of n] n' show ?thesis by simp
    next
      case False
      show ?thesis
      proof (cases "n = mc")
        case True
        from rel have "related mc r" unfolding True by (simp add: related_sym)
        with nb [OF mc] r have "r \<in> set (neighbors (b mc))" by simp
        from al [OF this] True False show ?thesis by simp
      next
        case nm: False
        from co r n' nz False have "cur_val (b n) \<noteq> cur_val (b r)"
          by (simp add: consistent_def)
        with False nm show ?thesis by simp
      qed
    qed
  qed
  ultimately show ?thesis by (simp add: good_def)
qed

lemma try_values_sound:
  assumes IH: "\<And>b b' tr. good b \<Longrightarrow> backtrack_with_min_val d b = (Inr True, b', tr) \<Longrightarrow>
                  good b' \<and> board_is_solved b'"
    and mc: "mc \<in> set positions" and vs: "set vs \<subseteq> {1..9}"
  shows "good b \<Longrightarrow> try_values d mc vs b = (Inr True, b', tr) \<Longrightarrow> good b' \<and> board_is_solved b'"
  using vs
proof (induction vs arbitrary: b b' tr)
  case Nil
  then show ?case by (simp add: try_values_Nil)
next
  case (Cons i rest)
  from Cons.prems(3) have i: "1 \<le> i" "i \<le> 9" and rest: "set rest \<subseteq> {1..9}" by auto
  show ?case
  proof (cases "is_allowed b mc i")
    case False
    with Cons.prems(2) have "try_values d mc rest b = (Inr True, b', tr)"
      by (simp add: try_values_skip)
    from Cons.IH [OF Cons.prems(1) this rest] show ?thesis .
  next
    case True
    let ?b1 = "set_current b mc i"
    have g1: "good ?b1" using Cons.prems(1) mc True i by (rule good_set_current)
    obtain r1 b2 tr1 where bt: "backtrack_with_min_val d ?b1 = (r1, b2, tr1)"
      by (cases "backtrack_with_min_val d ?b1") auto
    note st = try_values_step [OF True bt, of rest]
    show ?thesis
    proof (cases "r1 = Inr False")
      case False
      with st Cons.prems(2) have "r1 = Inr True" "b' = b2" by simp_all
      with IH [OF g1] bt show ?thesis by simp
    next
      case True
      obtain r3 b3 tr3 where tv: "try_values d mc rest b2 = (r3, b3, tr3)"
        by (cases "try_values d mc rest b2") auto
      with st True Cons.prems(2) have e: "r3 = Inr True" "b' = b3" by simp_all
      from backtrack_post [OF bt] True have p: "search_post ?b1 (Inr False) b2 tr1" by simp
      have "good b2"
      proof (rule good_cong [OF g1])
        show "same_graph ?b1 b2" using search_post_graph [OF p] by (rule conjunct1)
        show "cur_val (b2 r) = cur_val (?b1 r)" for r using p by (rule search_post_undo)
      qed
      from Cons.IH [OF this _ rest] tv e show ?thesis by simp
    qed
  qed
qed

lemma backtrack_sound:
  "good b \<Longrightarrow> backtrack_with_min_val d b = (Inr True, b', tr) \<Longrightarrow> good b' \<and> board_is_solved b'"
proof (induction d arbitrary: b b' tr)
  case 0
  then show ?case by (simp add: backtrack_0)
next
  case (Suc d)
  show ?case
  proof (cases "board_is_solved b")
    case True
    with Suc.prems show ?thesis by (simp add: backtrack_solved)
  next
    case False
    from backtrack_Suc_unsolved [OF False, of d] obtain m where
      m: "m \<in> set positions" "cur_val (b m) = 0"
      and bt: "backtrack_with_min_val (Suc d) b =
               (if fresh_domain b m = [] then (Inr False, refresh b positions, [])
                else try_values d m (ordered_values (refresh b positions) m) (refresh b positions))"
      by blast
    show ?thesis
    proof (cases "fresh_domain b m = []")
      case True
      with bt Suc.prems show ?thesis by simp
    next
      case False
      with bt Suc.prems
      have tv: "try_values d m (ordered_values (refresh b positions) m) (refresh b positions) = (Inr True, b', tr)"
        by simp
      have "set (ordered_values (refresh b positions) m) = set (fresh_domain b m)"
        using m by (simp add: refresh_values)
      with fresh_domain_range [of b m]
      have vs: "set (ordered_values (refresh b positions) m) \<subseteq> {1..9}" by simp
      from try_values_sound [OF Suc.IH m(1) vs good_refresh [OF Suc.prems(1)] tv]
      show ?thesis by simp
    qed
  qed
qed

lemma unit_complete:
  assumes g: "good b" and s: "board_is_solved b" and u: "is_unit u"
  shows "mset (map (\<lambda>r. cur_val (b r)) u) = mset [1, 2, 3, 4, 5, 6, 7, 8, 9]"
proof -
  let ?f = "\<lambda>r. cur_val (b r)"
  from g have go: "graph_ok b" and co: "consistent b" and ra: "in_range b"
    by (simp_all add: good_def)
  from u have l: "length u = 9" and d: "distinct u" and sub: "set u \<subseteq> set positions"
    and rel: "\<And>r r'. r \<in> set u \<Longrightarrow> r' \<in> set u \<Longrightarrow> r \<noteq> r' \<Longrightarrow> related r r'"
    by (simp_all add: is_unit_def)
  have nz: "?f r \<noteq> 0" if "r \<in> set positions" for r
    using s that by (simp add: board_is_solved_def list_all_iff)
  have inj: "inj_on ?f (set u)"
  proof (rule inj_onI)
    fix r r' assume r: "r \<in> set u" and r': "r' \<in> set u" and e: "?f r = ?f r'"
    show "r = r'"
    proof (rule ccontr)
      assume ne: "r \<noteq> r'"
      from rel [OF r r' ne] sub r r' go have "r' \<in> set (neighbors (b r))"
        by (auto simp: graph_ok_def peers_list_set)
      with co sub r nz [of r] have "?f r' \<noteq> ?f r" by (auto simp: consistent_def)
      with e show False by simp
    qed
  qed
  have dv: "distinct (map ?f u)" using d inj by (simp add: distinct_map)
  have "set (map ?f u) \<subseteq> {1..9}"
  proof
    fix v assume "v \<in> set (map ?f u)"
    then obtain r where r: "r \<in> set u" "v = ?f r" by auto
    with sub have rp: "r \<in> set positions" by auto
    from ra rp nz [OF rp] r(2) show "v \<in> {1..9}" by (auto simp: in_range_def)
  qed
  moreover have "card (set (map ?f u)) = card {1..9::int}"
    using distinct_card [OF dv] l by simp
  ultimately have "set (map ?f u) = {1..9}"
    by (intro card_subset_eq) simp_all
  also have "\<dots> = set [1, 2, 3, 4, 5, 6, 7, 8, 9 :: int]" by auto
  finally have "set (map ?f u) = set [1, 2, 3, 4, 5, 6, 7, 8, 9 :: int]" .
  moreover have "distinct [1, 2, 3, 4, 5, 6, 7, 8, 9 :: int]" by simp
  ultimately show ?thesis using dv by (simp only: set_eq_iff_mset_eq_distinct)
qed

lemma row_unit: "y < 9 \<Longrightarrow> is_unit (row_cells y)"
  by (auto simp: is_unit_def row_cells_def positions_set related_def)

lemma col_unit: "x < 9 \<Longrightarrow> is_unit (col_cells x)"
  by (auto simp: is_unit_def col_cells_def positions_set related_def)

lemma div3: "Suc (3 * q) div 3 = q" "Suc (Suc (3 * q)) div 3 = q"
  by presburger+

lemma box_unit: "p < 3 \<Longrightarrow> q < 3 \<Longrightarrow> is_unit (box_cells p q)"
  by (auto simp: is_unit_def box_cells_def positions_set related_def div3)

subsection \<open>Filling in the clues\<close>

lemma int_of_char_digit:
  "is_digit c \<Longrightarrow> int_of_char c = Inr (digit_val c)"
  by (auto simp: is_digit_def digit_val_def int_of_char_def)

lemma int_of_char_other:
  "\<not> is_digit c \<Longrightarrow> int_of_char c = Inl ValueError"
  by (simp add: is_digit_def int_of_char_def)

lemma digit_val_range: "0 \<le> digit_val c \<and> digit_val c \<le> 9"
  by (simp add: digit_val_def int_of_char_def)

lemma getitem_count:
  "getitem (int (cnt div 9), int (cnt mod 9)) =
     (if cnt < 81 then Inr (cnt div 9, cnt mod 9) else Inl IndexError)"
proof -
  have "cnt div 9 < 9 \<longleftrightarrow> cnt < 81" by presburger
  then show ?thesis
    by (auto simp: getitem_def py_index_def bnd_def)
qed

lemma accepted_from_iff:
  "accepted_from cnt s \<longleftrightarrow>
     (\<forall>k<length s. s ! k = CHR ''.'' \<or> (cnt + k < 81 \<and> is_digit (s ! k)))"
proof (induction s arbitrary: cnt)
  case Nil
  show ?case by simp
next
  case (Cons c cs)
  show ?case
    by (simp add: Cons.IH All_less_Suc2)
qed

lemma cell_index_grid:
  assumes "r \<in> set positions"
  shows "cell_index r < 81 \<and> (cell_index r div 9, cell_index r mod 9) = r"
proof -
  from assms have "fst r < 9" "snd r < 9" by (auto simp: positions_set)
  then show ?thesis by (auto simp: cell_index_def prod_eq_iff)
qed

lemma cell_index_count:
  assumes "cnt < 81"
  shows "(cnt div 9, cnt mod 9) \<in> set positions \<and> cell_index (cnt div 9, cnt mod 9) = cnt"
proof -
  from assms have "cnt div 9 < 9" by presburger
  then show ?thesis by (simp add: positions_set cell_index_def)
qed

lemma filled_from_Nil [simp]: "filled_from b cnt [] = b"
  by (auto simp: filled_from_def fun_eq_iff)

lemma filled_from_dot:
  "filled_from b cnt (CHR ''.'' # cs) = filled_from b (Suc cnt) cs"
proof
  fix r
  show "filled_from b cnt (CHR ''.'' # cs) r = filled_from b (Suc cnt) cs r"
  proof (cases "cell_index r = cnt")
    case True
    then show ?thesis by (simp add: filled_from_def)
  next
    case False
    then have "cnt \<le> cell_index r \<longleftrightarrow> Suc cnt \<le> cell_index r" by auto
    moreover have "(CHR ''.'' # cs) ! (cell_index r - cnt) = cs ! (cell_index r - Suc cnt)"
      if "Suc cnt \<le> cell_index r"
      using that by (simp add: nth_Cons')
    ultimately show ?thesis by (auto simp: filled_from_def)
  qed
qed

lemma filled_from_digit:
  assumes "c \<noteq> CHR ''.''" "cnt < 81"
  shows "filled_from b cnt (c # cs) =
         filled_from (set_current b (cnt div 9, cnt mod 9) (digit_val c)) (Suc cnt) cs"
proof
  fix r
  let ?r0 = "(cnt div 9, cnt mod 9)"
  from cell_index_count [OF assms(2)] have r0: "?r0 \<in> set positions" "cell_index ?r0 = cnt"
    by simp_all
  show "filled_from b cnt (c # cs) r = filled_from (set_current b ?r0 (digit_val c)) (Suc cnt) cs r"
  proof (cases "r = ?r0")
    case True
    then show ?thesis using r0 assms(1) by (simp add: filled_from_def set_current_def)
  next
    case False
    have ne: "cell_index r \<noteq> cnt" if "r \<in> set positions"
      using cell_index_grid [OF that] False by auto
    have nth: "(c # cs) ! (cell_index r - cnt) = cs ! (cell_index r - Suc cnt)"
      if "Suc cnt \<le> cell_index r"
      using that by (simp add: nth_Cons')
    show ?thesis
    proof (cases "r \<in> set positions")
      case True
      from ne [OF True] have "cnt \<le> cell_index r \<longleftrightarrow> Suc cnt \<le> cell_index r" by auto
      with nth False True show ?thesis by (auto simp: filled_from_def set_current_def)
    next
      case nin: False
      with False show ?thesis by (simp add: filled_from_def set_current_def)
    qed
  qed
qed

lemma fill_loop_accepted:
  "accepted_from cnt s \<Longrightarrow> fill_loop b s cnt = Inr (filled_from b cnt s)"
proof (induction s arbitrary: b cnt)
  case Nil
  show ?case by simp
next
  case (Cons c cs)
  show ?case
  proof (cases "c = CHR ''.''")
    case True
    with Cons show ?thesis by (simp add: filled_from_dot)
  next
    case False
    with Cons.prems have c: "cnt < 81" "is_digit c" and rest: "accepted_from (Suc cnt) cs"
      by simp_all
    from Cons.IH [OF rest] False c show ?thesis
      by (simp add: getitem_count int_of_char_digit bnd_def filled_from_digit)
  qed
qed

lemma fill_loop_rejected:
  "\<not> accepted_from cnt s \<Longrightarrow>
   fill_loop b s cnt = Inl IndexError \<or> fill_loop b s cnt = Inl ValueError"
proof (induction s arbitrary: b cnt)
  case Nil
  then show ?case by simp
next
  case (Cons c cs)
  show ?case
  proof (cases "c = CHR ''.''")
    case True
    with Cons.prems have "\<not> accepted_from (Suc cnt) cs" by simp
    from Cons.IH [OF this] True show ?thesis by simp
  next
    case False
    show ?thesis
    proof (cases "cnt < 81 \<and> is_digit c")
      case True
      with Cons.prems False have "\<not> accepted_from (Suc cnt) cs" by simp
      from Cons.IH [OF this] True False show ?thesis
        by (simp add: getitem_count int_of_char_digit bnd_def)
    next
      case nd: False
      with False show ?thesis
        by (auto simp: getitem_count int_of_char_other bnd_def)
    qed
  qed
qed

lemma well_formed_accepted: "well_formed s \<Longrightarrow> accepted s"
proof -
  assume w: "well_formed s"
  have "is_digit c \<or> c = CHR ''.''" if "c \<in> set ''.123456789''" for c
    using that by (auto simp: is_digit_def)
  with w show ?thesis
    unfolding accepted_def accepted_from_iff well_formed_def
    by (metis add_0 nth_mem)
qed

lemma filled_fields [simp]:
  "neighbors (filled_from b cnt s r) = neighbors (b r)"
  "cell_id (filled_from b cnt s r) = cell_id (b r)"
  "assigned_neigh (filled_from b cnt s r) = assigned_neigh (b r)"
  "cell_values (filled_from b cnt s r) = cell_values (b r)"
  by (simp_all add: filled_from_def)

subsection \<open>The set-up loop\<close>

lemma ids_ok_Board: "ids_ok Board"
  by (simp add: ids_ok_def)

lemma str_at_ids:
  assumes "ids_ok b" "r \<in> set positions"
  shows "str_at (cell_id (b r)) 0 = Inr (box_char r)"
    "str_at (cell_id (b r)) 1 = Inr (digit_char (fst r))"
    "str_at (cell_id (b r)) 2 = Inr (digit_char (snd r))"
  by (simp_all add: str_at_def ids_ok_id [OF assms])

lemma fill_initial_board_accepted:
  "accepted s \<Longrightarrow> fill_initial_board b s = Inr (filled b s)"
  by (simp add: fill_initial_board_def accepted_def filled_def fill_loop_accepted)

lemma fill_initial_board_rejected:
  "\<not> accepted s \<Longrightarrow>
   fill_initial_board b s = Inl IndexError \<or> fill_initial_board b s = Inl ValueError"
  unfolding fill_initial_board_def accepted_def by (rule fill_loop_rejected)

lemma setup_loop_Cons_accepted:
  assumes "ids_ok b" "r \<in> set positions" "accepted puzzle"
  shows "setup_loop puzzle (r # rs) b = setup_loop puzzle rs (setup_step puzzle r b)"
  unfolding setup_loop.simps Let_def str_at_ids [OF assms(1,2)]
  by (simp add: find_neighbors_ok [OF assms(1,2)] fill_initial_board_accepted [OF assms(3)]
      bnd_def setup_step_def linked_def)

lemma setup_loop_Cons_rejected:
  assumes "ids_ok b" "r \<in> set positions" "\<not> accepted puzzle"
  shows "setup_loop puzzle (r # rs) b = Inl IndexError \<or> setup_loop puzzle (r # rs) b = Inl ValueError"
  unfolding setup_loop.simps Let_def str_at_ids [OF assms(1,2)]
  using fill_initial_board_rejected [OF assms(3), of "linked b r"]
  by (auto simp: find_neighbors_ok [OF assms(1,2)] bnd_def linked_def)

lemma setup_step_fields:
  "cell_id (setup_step puzzle r b x) = cell_id (b x)"
  "neighbors (setup_step puzzle r b x) = (if x = r then peers_list r else neighbors (b x))"
  "cur_val (setup_step puzzle r b x) = cur_val (filled b puzzle x)"
  "assigned_neigh (setup_step puzzle r b x) =
     (if x = r then length (filter (\<lambda>n. cur_val (b n) \<noteq> 0) (peers_list r))
      else assigned_neigh (b x))"
  by (simp_all add: setup_step_def filled_def linked_def filled_from_def)

lemma filled_cur_val:
  "cur_val (filled b s r) =
     (if r \<in> set positions \<and> cell_index r < length s \<and> s ! cell_index r \<noteq> CHR ''.''
      then digit_val (s ! cell_index r) else cur_val (b r))"
  by (simp add: filled_def filled_from_def)

lemma filled_twice:
  assumes "\<And>r. cur_val (b1 r) = cur_val (filled b puzzle r)"
  shows "cur_val (filled b1 puzzle r) = cur_val (filled b puzzle r)"
  by (simp add: filled_cur_val assms)

lemma setup_loop_ok:
  assumes acc: "accepted puzzle"
  shows "ids_ok b \<Longrightarrow> set ps \<subseteq> set positions \<Longrightarrow> distinct ps \<Longrightarrow>
         \<exists>b'. setup_loop puzzle ps b = Inr b' \<and> ids_ok b'
            \<and> (\<forall>r. neighbors (b' r) = (if r \<in> set ps then peers_list r else neighbors (b r)))
            \<and> (\<forall>r. cur_val (b' r) = (if ps = [] then cur_val (b r) else cur_val (filled b puzzle r)))
            \<and> (\<forall>r. assigned_neigh (b' r) =
                  (if r \<in> set ps
                   then length (filter (\<lambda>n. cur_val ((if r = hd ps then b else filled b puzzle) n) \<noteq> 0)
                                 (peers_list r))
                   else assigned_neigh (b r)))"
proof (induction ps arbitrary: b)
  case Nil
  then show ?case by simp
next
  case (Cons p ps)
  from Cons.prems have p: "p \<in> set positions" and ps: "set ps \<subseteq> set positions"
    and d: "distinct ps" and pn: "p \<notin> set ps" by auto
  let ?b1 = "setup_step puzzle p b"
  have ok1: "ids_ok ?b1"
    using Cons.prems(1) by (simp add: ids_ok_def setup_step_fields)
  have c1: "cur_val (?b1 r) = cur_val (filled b puzzle r)" for r
    by (simp add: setup_step_fields)
  have c2: "cur_val (filled ?b1 puzzle r) = cur_val (filled b puzzle r)" for r
    using c1 by (rule filled_twice)
  from Cons.IH [OF ok1 ps d] obtain b' where
    b': "setup_loop puzzle ps ?b1 = Inr b'" "ids_ok b'"
    and nb: "\<And>r. neighbors (b' r) = (if r \<in> set ps then peers_list r else neighbors (?b1 r))"
    and cv: "\<And>r. cur_val (b' r) = (if ps = [] then cur_val (?b1 r) else cur_val (filled ?b1 puzzle r))"
    and an: "\<And>r. assigned_neigh (b' r) =
                  (if r \<in> set ps
                   then length (filter (\<lambda>n. cur_val ((if r = hd ps then ?b1 else filled ?b1 puzzle) n) \<noteq> 0)
                                 (peers_list r))
                   else assigned_neigh (?b1 r))"
    by blast
  have "setup_loop puzzle (p # ps) b = Inr b'"
    using setup_loop_Cons_accepted [OF Cons.prems(1) p acc] b'(1) by simp
  moreover have "neighbors (b' r) = (if r \<in> set (p # ps) then peers_list r else neighbors (b r))" for r
    by (simp add: nb setup_step_fields)
  moreover have "cur_val (b' r) = cur_val (filled b puzzle r)" for r
    by (simp add: cv c1 c2)
  moreover have "assigned_neigh (b' r) =
                  (if r \<in> set (p # ps)
                   then length (filter (\<lambda>n. cur_val ((if r = hd (p # ps) then b else filled b puzzle) n) \<noteq> 0)
                                 (peers_list r))
                   else assigned_neigh (b r))" for r
  proof (cases "r \<in> set ps")
    case True
    with pn have "r \<noteq> p" by auto
    with True show ?thesis
      by (simp add: an c1 c2)
  next
    case False
    then show ?thesis by (simp add: an setup_step_fields)
  qed
  ultimately show ?case using b'(2) by auto
qed

lemma clue_Board: "cur_val (filled Board s r) = clue s r"
  by (simp add: filled_cur_val clue_def Board_def Cell_def split: prod.split)

lemma positions_nonempty: "positions \<noteq> []"
  by (simp add: positions_def)

lemma positions_hd: "hd positions = (0, 0)"
  by (simp add: positions_def)

lemma main_setup_accepted:
  assumes "accepted puzzle"
  shows "main_setup puzzle = Inr (board_of puzzle) \<and> ids_ok (board_of puzzle)
       \<and> (\<forall>r\<in>set positions. neighbors (board_of puzzle r) = peers_list r)
       \<and> (\<forall>r. cur_val (board_of puzzle r) = clue puzzle r)
       \<and> (\<forall>r\<in>set positions. assigned_neigh (board_of puzzle r) =
             (if r = (0, 0) then 0 else length (filter (\<lambda>n. clue puzzle n \<noteq> 0) (peers_list r))))"
proof -
  from setup_loop_ok [OF assms ids_ok_Board subset_refl positions_distinct] obtain b' where
    b': "setup_loop puzzle positions Board = Inr b'" "ids_ok b'"
    and nb: "\<And>r. neighbors (b' r) = (if r \<in> set positions then peers_list r else neighbors (Board r))"
    and cv: "\<And>r. cur_val (b' r) = (if positions = [] then cur_val (Board r) else cur_val (filled Board puzzle r))"
    and an: "\<And>r. assigned_neigh (b' r) =
                  (if r \<in> set positions
                   then length (filter (\<lambda>n. cur_val ((if r = hd positions then Board else filled Board puzzle) n) \<noteq> 0)
                                 (peers_list r))
                   else assigned_neigh (Board r))"
    by blast
  from b'(1) have e: "board_of puzzle = b'" by (simp add: board_of_def main_setup_def)
  have z: "cur_val (Board n) = 0" for n
    by (simp add: Board_def Cell_def split: prod.split)
  show ?thesis
    unfolding e using b'
    by (simp add: main_setup_def nb cv an positions_nonempty clue_Board positions_hd z)
qed

lemma main_setup_rejected:
  assumes "\<not> accepted puzzle"
  shows "main_setup puzzle = Inl IndexError \<or> main_setup puzzle = Inl ValueError"
proof -
  obtain p ps where e: "positions = p # ps" using positions_nonempty by (cases positions) auto
  have "p \<in> set positions" unfolding e by simp
  from setup_loop_Cons_rejected [OF ids_ok_Board this assms] show ?thesis
    by (simp add: main_setup_def e)
qed

lemma main_setup_Inr:
  assumes "main_setup puzzle = Inr b"
  shows "accepted puzzle \<and> b = board_of puzzle"
proof -
  from assms main_setup_rejected [of puzzle] have "accepted puzzle" by auto
  moreover from assms have "b = board_of puzzle" by (simp add: board_of_def)
  ultimately show ?thesis by simp
qed

subsection \<open>Boards with one or two unassigned cells\<close>

lemma find_less_poss_single:
  assumes "unassigned b positions = [m]"
  shows "find_less_poss b = (Some m, refresh b positions)"
proof -
  from find_less_poss_eq [of b] obtain ml mc where
    f: "find_less_poss b = (mc, refresh b positions)" and i: "scan_inv b positions ml mc"
    by blast
  from i assms have "mc = Some m" by (auto simp: scan_inv_def)
  with f show ?thesis by simp
qed

lemma find_less_poss_pair:
  assumes u: "unassigned b positions = [u, m]"
    and l: "length (fresh_domain b u) = length (fresh_domain b m)"
    and a: "assigned_neigh (b u) < assigned_neigh (b m)"
  shows "find_less_poss b = (Some m, refresh b positions)"
proof -
  from find_less_poss_eq [of b] obtain ml mc where
    f: "find_less_poss b = (mc, refresh b positions)" and i: "scan_inv b positions ml mc"
    by blast
  from i u obtain x T1 T2 where x: "mc = Some x" "x = u \<or> x = m" "ml = length (fresh_domain b x)"
    and T: "filter (\<lambda>t. length (fresh_domain b t) = ml) [u, m] = T1 @ x # T2"
    "\<forall>t\<in>set T1. assigned_neigh (b t) < assigned_neigh (b x)"
    "\<forall>t\<in>set T2. assigned_neigh (b t) \<le> assigned_neigh (b x)"
    by (auto simp: scan_inv_def)
  have "x = m"
  proof (rule ccontr)
    assume "x \<noteq> m"
    with x(2) have xu: "x = u" by simp
    with x(3) l T(1) have "[u, m] = T1 @ u # T2" by simp
    moreover from xu T(2) have "u \<notin> set T1" by auto
    ultimately have "T1 = []" by (cases T1) auto
    with \<open>[u, m] = T1 @ u # T2\<close> have "m \<in> set T2" by auto
    with T(3) xu a show False by auto
  qed
  with f x(1) show ?thesis by simp
qed

lemma backtrack_Suc_at:
  assumes "\<not> board_is_solved b" "find_less_poss b = (Some m, b1)"
  shows "backtrack_with_min_val (Suc d) b =
           (if fresh_domain b m = [] then (Inr False, refresh b positions, [])
            else try_values d m (ordered_values (refresh b positions) m) (refresh b positions))"
  using backtrack_Suc_unsolved [OF assms(1), of d] assms(2) by auto

lemma unassigned_set_current:
  "v \<noteq> 0 \<Longrightarrow> unassigned (set_current b m v) ps = filter (\<lambda>r. r \<noteq> m) (unassigned b ps)"
  by (induction ps) (auto simp: unassigned_def)

lemma unassigned_refresh [simp]: "unassigned (refresh b ps) qs = unassigned b qs"
  by (simp add: unassigned_def)

lemma is_allowed_fresh:
  assumes "v \<in> set (fresh_domain b m)"
  shows "is_allowed b m v"
proof -
  from assms have "v \<noteq> 0" "\<forall>n\<in>set (neighbors (b m)). cur_val (b n) \<noteq> v"
    by (auto simp: fresh_domain_def initial_values_set)
  then show ?thesis by (simp add: is_allowed_def list_all_iff)
qed

lemma is_allowed_refresh [simp]: "is_allowed (refresh b ps) m v = is_allowed b m v"
  by (simp add: is_allowed_def)

lemma ordered_values_single: "cell_values (b m) = [a] \<Longrightarrow> ordered_values b m = [a]"
  by (simp add: ordered_values_def)

lemma single_blank_success:
  assumes u: "unassigned b positions = [m]" and f: "fresh_domain b m = [a]"
  shows "backtrack_with_min_val (Suc (Suc d)) b =
           (Inr True, set_current (refresh b positions) m a, [set_current (refresh b positions) m a])"
proof -
  let ?b1 = "refresh b positions"
  have "m \<in> set (unassigned b positions)" unfolding u by simp
  then have m: "m \<in> set positions" "cur_val (b m) = 0" by (simp_all add: unassigned_def)
  from u have ns: "\<not> board_is_solved b" by (simp add: board_is_solved_iff)
  from fresh_domain_range [of b m] f have a0: "a \<noteq> 0" by auto
  have cv: "cell_values (?b1 m) = [a]" using m f by (simp add: refresh_values)
  have al: "is_allowed ?b1 m a" using f by (simp add: is_allowed_fresh)
  have "unassigned (set_current ?b1 m a) positions = []"
    using a0 u by (simp add: unassigned_set_current)
  then have "board_is_solved (set_current ?b1 m a)" by (simp add: board_is_solved_iff)
  then have bt: "backtrack_with_min_val (Suc d) (set_current ?b1 m a) = (Inr True, set_current ?b1 m a, [])"
    by (rule backtrack_solved)
  have "backtrack_with_min_val (Suc (Suc d)) b = try_values (Suc d) m [a] ?b1"
    using backtrack_Suc_at [OF ns find_less_poss_single [OF u]] f
    by (simp add: ordered_values_single [of "refresh b positions" m a, OF cv])
  also have "\<dots> = (Inr True, set_current ?b1 m a, [set_current ?b1 m a])"
    using try_values_step [OF al bt, of "[]"] by simp
  finally show ?thesis .
qed

lemma single_blank_failure:
  assumes u: "unassigned b positions = [m]" and f: "fresh_domain b m = []"
  shows "backtrack_with_min_val (Suc d) b = (Inr False, refresh b positions, [])"
proof -
  from u have ns: "\<not> board_is_solved b" by (simp add: board_is_solved_iff)
  from backtrack_Suc_at [OF ns find_less_poss_single [OF u]] f show ?thesis by simp
qed

lemma pair_blank_failure:
  assumes u: "unassigned b positions = [u, m]"
    and fu: "length (fresh_domain b u) = 1" and fm: "fresh_domain b m = [a]"
    and an: "assigned_neigh (b u) < assigned_neigh (b m)"
    and fe: "fresh_domain (set_current b m a) u = []"
  shows "backtrack_with_min_val (Suc (Suc d)) b =
           (Inr False,
            set_current (refresh (set_current (refresh b positions) m a) positions) m 0,
            [set_current (refresh b positions) m a,
             set_current (refresh (set_current (refresh b positions) m a) positions) m 0])"
proof -
  let ?b1 = "refresh b positions"
  let ?b2 = "set_current ?b1 m a"
  from u have ns: "\<not> board_is_solved b" by (simp add: board_is_solved_iff)
  have "distinct (unassigned b positions)"
    by (simp add: unassigned_def positions_distinct)
  with u have um: "u \<noteq> m" by simp
  have "m \<in> set (unassigned b positions)" unfolding u by simp
  then have m: "m \<in> set positions" "cur_val (b m) = 0" by (simp_all add: unassigned_def)
  from fresh_domain_range [of b m] fm have a0: "a \<noteq> 0" by auto
  have fl: "find_less_poss b = (Some m, ?b1)"
    using u fu fm an by (intro find_less_poss_pair) simp_all
  have cv: "cell_values (?b1 m) = [a]" using m fm by (simp add: refresh_values)
  have al: "is_allowed ?b1 m a" using fm by (simp add: is_allowed_fresh)
  have u2: "unassigned ?b2 positions = [u]"
    using a0 u um by (simp add: unassigned_set_current)
  have "fresh_domain ?b2 u = fresh_domain (set_current b m a) u"
    by (rule fresh_domain_cong) simp_all
  with fe have "fresh_domain ?b2 u = []" by simp
  from single_blank_failure [OF u2 this]
  have bt: "backtrack_with_min_val (Suc d) ?b2 = (Inr False, refresh ?b2 positions, [])" .
  have "backtrack_with_min_val (Suc (Suc d)) b = try_values (Suc d) m [a] ?b1"
    using backtrack_Suc_at [OF ns fl] fm by (simp add: ordered_values_single [of "refresh b positions" m a, OF cv])
  also have "\<dots> = (Inr False, set_current (refresh ?b2 positions) m 0,
                     [?b2, set_current (refresh ?b2 positions) m 0])"
    using try_values_step [OF al bt, of "[]"] by (simp add: try_values_Nil)
  finally show ?thesis .
qed

lemma board_of_cur_val: "accepted p \<Longrightarrow> cur_val (board_of p r) = clue p r"
  using main_setup_accepted [of p] by blast

lemma board_of_neighbors:
  "accepted p \<Longrightarrow> r \<in> set positions \<Longrightarrow> neighbors (board_of p r) = peers_list r"
  using main_setup_accepted [of p] by blast

lemma board_of_assigned:
  "accepted p \<Longrightarrow> r \<in> set positions \<Longrightarrow>
   assigned_neigh (board_of p r) =
     (if r = (0, 0) then 0 else length (filter (\<lambda>n. clue p n \<noteq> 0) (peers_list r)))"
  using main_setup_accepted [of p] by blast

lemma board_of_unassigned:
  assumes "accepted p"
  shows "unassigned (board_of p) ps = filter (\<lambda>r. clue p r = 0) ps"
  by (simp add: unassigned_def board_of_cur_val [OF assms])

lemma clue_board_fields [simp]:
  "cur_val (clue_board p r) = clue p r" "neighbors (clue_board p r) = peers_list r"
  by (simp_all add: clue_board_def)

lemma board_of_domain:
  assumes "accepted p" "r \<in> set positions"
  shows "fresh_domain (board_of p) r = fresh_domain (clue_board p) r"
  by (rule fresh_domain_cong)
    (simp_all add: board_of_cur_val [OF assms(1)] board_of_neighbors [OF assms])

lemma board_of_domain_after:
  assumes "accepted p" "r \<in> set positions"
  shows "fresh_domain (set_current (board_of p) m v) r = fresh_domain (set_current (clue_board p) m v) r"
  by (rule fresh_domain_cong)
    (simp_all add: board_of_cur_val [OF assms(1)] board_of_neighbors [OF assms])

subsection \<open>Further facts used by the claims\<close>

lemma loop_post_holds:
  assumes "try_values d mc vs b = (res, b', tr)"
  shows "loop_post mc b res b' tr"
  by (rule try_values_post [OF _ assms]) (rule backtrack_post)

lemma try_values_True_solved:
  assumes IH: "\<And>b b' tr. backtrack_with_min_val d b = (Inr True, b', tr) \<Longrightarrow> board_is_solved b'"
  shows "try_values d mc vs b = (Inr True, b', tr) \<Longrightarrow> board_is_solved b'"
proof (induction vs arbitrary: b b' tr)
  case Nil
  then show ?case by (simp add: try_values_Nil)
next
  case (Cons i rest)
  show ?case
  proof (cases "is_allowed b mc i")
    case False
    with Cons.prems have "try_values d mc rest b = (Inr True, b', tr)"
      by (simp add: try_values_skip)
    then show ?thesis by (rule Cons.IH)
  next
    case True
    obtain r1 b2 tr1 where bt: "backtrack_with_min_val d (set_current b mc i) = (r1, b2, tr1)"
      by (cases "backtrack_with_min_val d (set_current b mc i)") auto
    note st = try_values_step [OF True bt, of rest]
    show ?thesis
    proof (cases "r1 = Inr False")
      case False
      with st Cons.prems have "r1 = Inr True" "b' = b2" by simp_all
      with IH bt show ?thesis by simp
    next
      case True
      obtain r3 b3 tr3 where tv: "try_values d mc rest b2 = (r3, b3, tr3)"
        by (cases "try_values d mc rest b2") auto
      with st True Cons.prems have e: "r3 = Inr True" "b' = b3" by simp_all
      from Cons.IH [of b2 b3 tr3] tv e show ?thesis by simp
    qed
  qed
qed

lemma backtrack_True_solved:
  "backtrack_with_min_val d b = (Inr True, b', tr) \<Longrightarrow> board_is_solved b'"
proof (induction d arbitrary: b b' tr)
  case 0
  then show ?case by (simp add: backtrack_0)
next
  case (Suc d)
  show ?case
  proof (cases "board_is_solved b")
    case True
    with Suc.prems show ?thesis by (simp add: backtrack_solved)
  next
    case False
    from backtrack_Suc_unsolved [OF False, of d] obtain m where
      bt: "backtrack_with_min_val (Suc d) b =
               (if fresh_domain b m = [] then (Inr False, refresh b positions, [])
                else try_values d m (ordered_values (refresh b positions) m) (refresh b positions))"
      by blast
    show ?thesis
    proof (cases "fresh_domain b m = []")
      case True
      with bt Suc.prems show ?thesis by simp
    next
      case False
      with bt Suc.prems
      have tv: "try_values d m (ordered_values (refresh b positions) m) (refresh b positions) = (Inr True, b', tr)"
        by simp
      show ?thesis by (rule try_values_True_solved [OF _ tv]) (rule Suc.IH)
    qed
  qed
qed

lemma main_setup_good:
  assumes "main_setup puzzle = Inr b"
  shows "graph_ok b \<and> in_range b"
proof -
  from main_setup_Inr [OF assms] have a: "accepted puzzle" and e: "b = board_of puzzle"
    by simp_all
  have "0 \<le> clue puzzle r \<and> clue puzzle r \<le> 9" for r
    using digit_val_range by (simp add: clue_def)
  then show ?thesis
    unfolding e graph_ok_def in_range_def
    by (simp add: board_of_neighbors [OF a] board_of_cur_val [OF a])
qed

lemma degree_fold_keep:
  "\<forall>t\<in>set ts. assigned_neigh (b t) \<le> assigned_neigh (b x) \<Longrightarrow> foldl (degree b) x ts = x"
  by (induction ts) (simp_all add: degree_def)

lemma degree_fold_pass:
  "\<forall>t\<in>set (x # T1). assigned_neigh (b t) < assigned_neigh (b m) \<Longrightarrow>
   foldl (degree b) x (T1 @ m # T2) = foldl (degree b) m T2"
proof (induction T1 arbitrary: x)
  case Nil
  then show ?case by (simp add: degree_def)
next
  case (Cons t T1)
  have "\<forall>t'\<in>set (degree b x t # T1). assigned_neigh (b t') < assigned_neigh (b m)"
    using Cons.prems by (simp add: degree_def)
  from Cons.IH [OF this] show ?case by simp
qed

lemma degree_fold_first_max:
  assumes "ties = T1 @ m # T2"
    "\<forall>t\<in>set T1. assigned_neigh (b t) < assigned_neigh (b m)"
    "\<forall>t\<in>set T2. assigned_neigh (b t) \<le> assigned_neigh (b m)"
  shows "foldl (degree b) (hd ties) (tl ties) = m"
proof (cases T1)
  case Nil
  with assms show ?thesis by (simp add: degree_fold_keep)
next
  case (Cons t T1')
  with assms(2) have "\<forall>t'\<in>set (t # T1'). assigned_neigh (b t') < assigned_neigh (b m)"
    by simp
  from degree_fold_pass [OF this, of T2] assms(1,3) Cons show ?thesis
    by (simp add: degree_fold_keep)
qed

lemma related_unfold:
  "related r r' \<longleftrightarrow>
     r' \<noteq> r \<and> (fst r' = fst r \<or> snd r' = snd r
                \<or> (fst r' div 3 = fst r div 3 \<and> snd r' div 3 = snd r div 3))"
  by (auto simp: related_def)

lemma digit_val_clue: "c \<in> set ''123456789'' \<Longrightarrow> 1 \<le> digit_val c \<and> digit_val c \<le> 9"
  by (auto simp: digit_val_def int_of_char_def)

section \<open>The claims\<close>

text \<open>
  C1. A call of the search that returns \<open>True\<close> leaves no cell of the grid unassigned
  and keeps every value that was assigned at entry. If at entry the neighbors lists are
  those of the constraint graph, every value is in 0..9 and no cell holds the nonzero
  value of one of its neighbors, then at return every cell holds a value in 1..9 and
  every row, every column and every 3x3 box holds each of 1..9 exactly once (the
  multiset of its nine values is that of 1..9). The boards the set-up of \<open>main\<close> builds
  have such neighbors lists and values. Nothing checks the clues against each other:
  the last hypothesis cannot be dropped.
\<close>

theorem search_success_valid:
  "(backtrack_with_min_val d b = (Inr True, b', tr) \<longrightarrow>
      (\<forall>r\<in>set positions. cur_val (b' r) \<noteq> 0)
      \<and> (\<forall>r. cur_val (b r) \<noteq> 0 \<longrightarrow> cur_val (b' r) = cur_val (b r)))
   \<and> (graph_ok b \<and> consistent b \<and> in_range b
       \<and> backtrack_with_min_val d b = (Inr True, b', tr) \<longrightarrow>
      (\<forall>r\<in>set positions. 1 \<le> cur_val (b' r) \<and> cur_val (b' r) \<le> 9)
      \<and> (\<forall>y<9. mset (map (\<lambda>r. cur_val (b' r)) (row_cells y)) = mset [1, 2, 3, 4, 5, 6, 7, 8, 9])
      \<and> (\<forall>x<9. mset (map (\<lambda>r. cur_val (b' r)) (col_cells x)) = mset [1, 2, 3, 4, 5, 6, 7, 8, 9])
      \<and> (\<forall>p<3. \<forall>q<3.
            mset (map (\<lambda>r. cur_val (b' r)) (box_cells p q)) = mset [1, 2, 3, 4, 5, 6, 7, 8, 9]))
   \<and> (main_setup puzzle = Inr b \<longrightarrow> graph_ok b \<and> in_range b)"
proof (intro conjI impI)
  assume h: "backtrack_with_min_val d b = (Inr True, b', tr)"
  from backtrack_True_solved [OF h]
  show "\<forall>r\<in>set positions. cur_val (b' r) \<noteq> 0"
    by (simp add: board_is_solved_def list_all_iff)
  show "\<forall>r. cur_val (b r) \<noteq> 0 \<longrightarrow> cur_val (b' r) = cur_val (b r)"
    using search_post_keeps [OF backtrack_post [OF h]] by blast
next
  assume a: "graph_ok b \<and> consistent b \<and> in_range b
    \<and> backtrack_with_min_val d b = (Inr True, b', tr)"
  then have g: "good b" and h: "backtrack_with_min_val d b = (Inr True, b', tr)"
    by (simp_all add: good_def)
  from backtrack_sound [OF g h] have g': "good b'" and s: "board_is_solved b'" by simp_all
  from g' have ra: "in_range b'" by (simp add: good_def)
  show "\<forall>r\<in>set positions. 1 \<le> cur_val (b' r) \<and> cur_val (b' r) \<le> 9"
  proof
    fix r assume r: "r \<in> set positions"
    with s have "cur_val (b' r) \<noteq> 0" by (simp add: board_is_solved_def list_all_iff)
    with ra r show "1 \<le> cur_val (b' r) \<and> cur_val (b' r) \<le> 9"
      by (auto simp: in_range_def)
  qed
  show "\<forall>y<9. mset (map (\<lambda>r. cur_val (b' r)) (row_cells y)) = mset [1, 2, 3, 4, 5, 6, 7, 8, 9]"
    using unit_complete [OF g' s] row_unit by blast
  show "\<forall>x<9. mset (map (\<lambda>r. cur_val (b' r)) (col_cells x)) = mset [1, 2, 3, 4, 5, 6, 7, 8, 9]"
    using unit_complete [OF g' s] col_unit by blast
  show "\<forall>p<3. \<forall>q<3.
      mset (map (\<lambda>r. cur_val (b' r)) (box_cells p q)) = mset [1, 2, 3, 4, 5, 6, 7, 8, 9]"
    using unit_complete [OF g' s] box_unit by blast
next
  assume "main_setup puzzle = Inr b"
  then show "graph_ok b" "in_range b" using main_setup_good by blast+
qed

text \<open>
  C2. If a call of \<open>backtrack_with_min_val\<close> returns \<open>False\<close>, every cell holds at return
  the value it held at entry. When the loop over the candidates ends with \<open>False\<close>, the
  selected cell is 0 again and all other cells are as they were when the loop started.
  The call raises none of AttributeError, IndexError and ValueError, and with more
  stack frames than unassigned cells it returns \<open>True\<close> or \<open>False\<close>.
\<close>

theorem failure_restores:
  "(backtrack_with_min_val d b = (res, b', tr) \<longrightarrow>
      (res = Inr False \<longrightarrow> (\<forall>r. cur_val (b' r) = cur_val (b r)))
      \<and> res \<noteq> Inl AttributeError \<and> res \<noteq> Inl IndexError \<and> res \<noteq> Inl ValueError
      \<and> (n_unassigned b < d \<longrightarrow> res = Inr True \<or> res = Inr False))
   \<and> (try_values d mc vs b = (Inr False, b'', tr') \<longrightarrow>
      cur_val (b'' mc) = 0 \<and> (\<forall>r. r \<noteq> mc \<longrightarrow> cur_val (b'' r) = cur_val (b r)))"
proof (intro conjI impI)
  assume h: "backtrack_with_min_val d b = (res, b', tr)"
  from backtrack_post [OF h] have p: "search_post b res b' tr" .
  show "\<forall>r. cur_val (b' r) = cur_val (b r)" if "res = Inr False"
    using p that search_post_undo by blast
  have e: "e = RecursionError" if "res = Inl e" for e
    using p that search_post_error by blast
  show "res \<noteq> Inl AttributeError" "res \<noteq> Inl IndexError" "res \<noteq> Inl ValueError"
    using e by auto
  show "res = Inr True \<or> res = Inr False" if "n_unassigned b < d"
    using backtrack_returns [OF that] h by auto
next
  assume h: "try_values d mc vs b = (Inr False, b'', tr')"
  have q: "loop_post mc b (Inr False) b'' tr'"
    using h by (rule loop_post_holds)
  show "cur_val (b'' mc) = 0" using loop_post_undo [OF q, of mc] by simp
  show "\<forall>r. r \<noteq> mc \<longrightarrow> cur_val (b'' r) = cur_val (b r)"
    using loop_post_undo [OF q] by simp
qed

text \<open>
  C3. For every cell and neighbor list, \<open>initial_values\<close> stores in the cell, and
  returns, exactly the values of 1..9 that no assigned (nonzero) neighbor holds. The
  result does not depend on the domain stored before (a full recomputation), nothing
  else on the board changes, and no value of the new domain is the current value of an
  assigned neighbor.
\<close>

theorem initial_values_recomputes:
  assumes "initial_values b nbrs c = (vs, b')"
  shows "set vs = {1..9} - {cur_val (b n) |n. n \<in> set nbrs \<and> cur_val (b n) \<noteq> 0}
       \<and> distinct vs
       \<and> b' = b(c := (b c)\<lparr>cell_values := vs\<rparr>)
       \<and> cell_values (b' c) = vs
       \<and> (\<forall>old. initial_values (b(c := (b c)\<lparr>cell_values := old\<rparr>)) nbrs c = (vs, b'))
       \<and> (\<forall>n\<in>set nbrs. cur_val (b' n) \<noteq> 0 \<longrightarrow> cur_val (b' n) \<notin> set vs)"
proof -
  from assms have vs: "vs = remove_assigned b nbrs [1, 2, 3, 4, 5, 6, 7, 8, 9]"
    and b': "b' = b(c := (b c)\<lparr>cell_values := vs\<rparr>)"
    by (auto simp: initial_values_eq)
  have s: "set vs = {1..9} - {v. v \<noteq> 0 \<and> (\<exists>n\<in>set nbrs. cur_val (b n) = v)}"
    using initial_values_set [of b nbrs c] by (simp add: initial_values_fst vs)
  have 1: "set vs = {1..9} - {cur_val (b n) |n. n \<in> set nbrs \<and> cur_val (b n) \<noteq> 0}"
    unfolding s by auto
  have 2: "distinct vs"
    unfolding vs by (rule remove_assigned_distinct) simp
  have cv: "\<And>n. cur_val (b' n) = cur_val (b n)"
    by (simp add: b')
  have 5: "\<forall>old. initial_values (b(c := (b c)\<lparr>cell_values := old\<rparr>)) nbrs c = (vs, b')"
  proof
    fix old
    have "remove_assigned (b(c := (b c)\<lparr>cell_values := old\<rparr>)) nbrs [1, 2, 3, 4, 5, 6, 7, 8, 9] = vs"
      unfolding vs by (rule remove_assigned_cong) simp
    then show "initial_values (b(c := (b c)\<lparr>cell_values := old\<rparr>)) nbrs c = (vs, b')"
      by (simp add: initial_values_eq b')
  qed
  have 6: "\<forall>n\<in>set nbrs. cur_val (b' n) \<noteq> 0 \<longrightarrow> cur_val (b' n) \<notin> set vs"
    unfolding cv s by auto
  from 1 2 b' 5 6 show ?thesis by simp
qed

theorem initial_values_recomputes_witness:
  "initial_values ex_board [(0, 1), (0, 2), (1, 0)] (0, 0) =
     ([1, 2, 3, 4, 6, 8, 9], ex_board((0, 0) := (ex_board (0, 0))\<lparr>cell_values := [1, 2, 3, 4, 6, 8, 9]\<rparr>))
   \<and> set [1, 2, 3, 4, 6, 8, 9] =
       {1..9} - {cur_val (ex_board n) |n. n \<in> set [(0, 1), (0, 2), (1, 0)] \<and> cur_val (ex_board n) \<noteq> 0}"
proof -
  have h: "initial_values ex_board [(0, 1), (0, 2), (1, 0)] (0, 0) =
     ([1, 2, 3, 4, 6, 8, 9], ex_board((0, 0) := (ex_board (0, 0))\<lparr>cell_values := [1, 2, 3, 4, 6, 8, 9]\<rparr>))"
    by (simp add: initial_values_eq ex_board_def set_current_def Board_def Cell_def)
  from initial_values_recomputes [OF h] h show ?thesis by blast
qed

text \<open>
  C4. On a board with an unassigned cell, \<open>find_less_poss\<close> replaces the domain of every
  unassigned cell of the grid by what \<open>initial_values\<close> computes for it and changes
  nothing else. It returns an unassigned cell whose new domain is of least size among
  the unassigned cells. Among the cells of that least size, taken in scan order, the
  returned cell is what remains when \<open>degree\<close> is applied from the first on to each later
  one: the first of them with the greatest \<open>assigned_neigh\<close>.
\<close>

theorem find_less_poss_minimal:
  assumes "\<exists>r\<in>set positions. cur_val (b r) = 0"
  shows "\<exists>m b'. find_less_poss b = (Some m, b')
     \<and> (\<forall>r. b' r = (if r \<in> set positions \<and> cur_val (b r) = 0
                     then (b r)\<lparr>cell_values := fst (initial_values b (neighbors (b r)) r)\<rparr>
                     else b r))
     \<and> m \<in> set positions \<and> cur_val (b m) = 0
     \<and> (\<forall>u\<in>set positions. cur_val (b u) = 0 \<longrightarrow>
           length (cell_values (b' m)) \<le> length (cell_values (b' u)))
     \<and> (\<exists>ties T1 T2.
           ties = filter (\<lambda>u. cur_val (b u) = 0
                           \<and> length (cell_values (b' u)) = length (cell_values (b' m))) positions
           \<and> m = foldl (degree b) (hd ties) (tl ties)
           \<and> ties = T1 @ m # T2
           \<and> (\<forall>t\<in>set T1. assigned_neigh (b t) < assigned_neigh (b m))
           \<and> (\<forall>t\<in>set T2. assigned_neigh (b t) \<le> assigned_neigh (b m)))"
proof -
  let ?b' = "refresh b positions"
  from find_less_poss_eq [of b] obtain ml mc where
    f: "find_less_poss b = (mc, ?b')" and i: "scan_inv b positions ml mc"
    by blast
  from assms have ne: "unassigned b positions \<noteq> []"
    by (auto simp: unassigned_def filter_empty_conv)
  with i obtain m T1 T2 where mc: "mc = Some m" and m: "m \<in> set (unassigned b positions)"
    and ml: "ml = length (fresh_domain b m)"
    and mn: "\<forall>u\<in>set (unassigned b positions). ml \<le> length (fresh_domain b u)"
    and T: "filter (\<lambda>u. length (fresh_domain b u) = ml) (unassigned b positions) = T1 @ m # T2"
      "\<forall>t\<in>set T1. assigned_neigh (b t) < assigned_neigh (b m)"
      "\<forall>t\<in>set T2. assigned_neigh (b t) \<le> assigned_neigh (b m)"
    unfolding scan_inv_def by auto
  from m have m0: "m \<in> set positions" "cur_val (b m) = 0" by (simp_all add: unassigned_def)
  have cv: "cell_values (?b' u) = fresh_domain b u" if "u \<in> set positions" "cur_val (b u) = 0" for u
    using that by (simp add: refresh_values)
  let ?ties = "filter (\<lambda>u. cur_val (b u) = 0
                           \<and> length (cell_values (?b' u)) = length (cell_values (?b' m))) positions"
  have "?ties = filter (\<lambda>u. length (fresh_domain b u) = ml) (unassigned b positions)"
    unfolding unassigned_def filter_filter ml
    by (rule filter_cong) (auto simp: cv m0)
  with T(1) have ties: "?ties = T1 @ m # T2" by simp
  have "\<forall>r. ?b' r = (if r \<in> set positions \<and> cur_val (b r) = 0
                     then (b r)\<lparr>cell_values := fst (initial_values b (neighbors (b r)) r)\<rparr>
                     else b r)"
    by (simp add: refresh_def fresh_domain_def)
  moreover have "\<forall>u\<in>set positions. cur_val (b u) = 0 \<longrightarrow>
           length (cell_values (?b' m)) \<le> length (cell_values (?b' u))"
  proof (intro ballI impI)
    fix u assume u: "u \<in> set positions" "cur_val (b u) = 0"
    then have "u \<in> set (unassigned b positions)" by (simp add: unassigned_def)
    with mn have "ml \<le> length (fresh_domain b u)" by blast
    then show "length (cell_values (?b' m)) \<le> length (cell_values (?b' u))"
      using cv [OF u] cv [OF m0] ml by simp
  qed
  moreover have "m = foldl (degree b) (hd ?ties) (tl ?ties)"
    using degree_fold_first_max [OF ties T(2,3)] by simp
  ultimately show ?thesis
    using f mc m0 ties T(2,3) by blast
qed

text \<open>
  C5. \<open>least_constr_val\<close> returns a permutation of the cell's domain, sorted in ascending
  order of \<open>constraints_imposed\<close> (the number of unassigned neighbors whose domain holds
  the candidate), candidates of equal score staying in the order of the domain. The
  search tries exactly this list when the selected cell has more than one candidate,
  and the domain itself when it has one; on a domain of at most one value the
  ordering would change nothing.
\<close>

theorem value_order:
  "mset (least_constr_val b c) = mset (cell_values (b c))
   \<and> sorted (map (constraints_imposed b c) (least_constr_val b c))
   \<and> (\<forall>k. filter (\<lambda>v. constraints_imposed b c v = k) (least_constr_val b c)
           = filter (\<lambda>v. constraints_imposed b c v = k) (cell_values (b c)))
   \<and> (\<not> board_is_solved b0 \<and> find_less_poss b0 = (Some mc, b1)
        \<and> b2 = snd (initial_values b1 (neighbors (b1 mc)) mc) \<and> cell_values (b2 mc) \<noteq> [] \<longrightarrow>
        backtrack_with_min_val (Suc d) b0 =
          try_values d mc
            (if length (cell_values (b2 mc)) > 1 then least_constr_val b2 mc
             else cell_values (b2 mc)) b2)
   \<and> (length (cell_values (b c)) \<le> 1 \<longrightarrow> least_constr_val b c = cell_values (b c))"
proof (intro conjI impI allI)
  show "mset (least_constr_val b c) = mset (cell_values (b c))"
    by (simp add: least_constr_val_eq)
  show "sorted (map (constraints_imposed b c) (least_constr_val b c))"
    by (simp add: least_constr_val_eq)
  show "filter (\<lambda>v. constraints_imposed b c v = k) (least_constr_val b c)
           = filter (\<lambda>v. constraints_imposed b c v = k) (cell_values (b c))" for k
    unfolding least_constr_val_eq by (rule sort_key_stable)
next
  assume a: "\<not> board_is_solved b0 \<and> find_less_poss b0 = (Some mc, b1)
        \<and> b2 = snd (initial_values b1 (neighbors (b1 mc)) mc) \<and> cell_values (b2 mc) \<noteq> []"
  then have ns: "\<not> board_is_solved b0" and f: "find_less_poss b0 = (Some mc, b1)"
    and e: "b2 = snd (initial_values b1 (neighbors (b1 mc)) mc)"
    and ne: "cell_values (snd (initial_values b1 (neighbors (b1 mc)) mc) mc) \<noteq> []"
    by auto
  show "backtrack_with_min_val (Suc d) b0 =
          try_values d mc
            (if length (cell_values (b2 mc)) > 1 then least_constr_val b2 mc
             else cell_values (b2 mc)) b2"
    unfolding e using ns f ne by (simp add: backtrack_with_min_val.simps Let_def)
next
  assume "length (cell_values (b c)) \<le> 1"
  then show "least_constr_val b c = cell_values (b c)"
    unfolding least_constr_val_eq by (cases "cell_values (b c)") auto
qed

text \<open>
  C6. A cell that holds a nonzero value when the search is called holds that value
  after every \<open>set_current\<close> the search performs and when it returns, whatever the
  result. The cell \<open>find_less_poss\<close> selects is a cell of the grid with value 0, and the
  loop over the candidates changes the value of the selected cell only.
\<close>

theorem clues_preserved:
  "(backtrack_with_min_val d b = (res, b', tr) \<longrightarrow>
      (\<forall>r. cur_val (b r) \<noteq> 0 \<longrightarrow>
         cur_val (b' r) = cur_val (b r) \<and> (\<forall>s\<in>set tr. cur_val (s r) = cur_val (b r))))
   \<and> (find_less_poss b = (Some m, b1) \<longrightarrow> m \<in> set positions \<and> cur_val (b m) = 0)
   \<and> (try_values d mc vs b = (res', b'', tr') \<longrightarrow>
      (\<forall>r. r \<noteq> mc \<and> cur_val (b r) \<noteq> 0 \<longrightarrow>
         cur_val (b'' r) = cur_val (b r) \<and> (\<forall>s\<in>set tr'. cur_val (s r) = cur_val (b r))))"
proof (intro conjI impI allI)
  fix r
  assume h: "backtrack_with_min_val d b = (res, b', tr)" and nz: "cur_val (b r) \<noteq> 0"
  from search_post_keeps [OF backtrack_post [OF h] nz]
  show "cur_val (b' r) = cur_val (b r)" "\<forall>s\<in>set tr. cur_val (s r) = cur_val (b r)"
    by simp_all
next
  assume f: "find_less_poss b = (Some m, b1)"
  from find_less_poss_eq [of b] f obtain ml where "scan_inv b positions ml (Some m)"
    by auto
  then have "m \<in> set (unassigned b positions)"
    by (auto simp: scan_inv_def split: if_splits)
  then show "m \<in> set positions" "cur_val (b m) = 0" by (simp_all add: unassigned_def)
next
  fix r
  assume h: "try_values d mc vs b = (res', b'', tr')" and r: "r \<noteq> mc \<and> cur_val (b r) \<noteq> 0"
  have q: "loop_post mc b res' b'' tr'"
    using h by (rule loop_post_holds)
  from loop_post_keeps [OF q] r
  show "cur_val (b'' r) = cur_val (b r)" "\<forall>s\<in>set tr'. cur_val (s r) = cur_val (b r)"
    by simp_all
qed

text \<open>
  C7. After the set-up loop of \<open>main\<close> has run \<open>find_neighbors\<close> for all 81 cells, every
  cell of the grid has a neighbors list of 20 distinct cells: exactly the other cells
  of the grid in its row, its column or its box. The relation is symmetric. The search
  never changes a neighbors list, at return or at any recorded moment, and neither do
  \<open>find_less_poss\<close>, \<open>initial_values\<close> and \<open>set_current\<close>.
\<close>

theorem neighbors_graph:
  "(main_setup puzzle = Inr b \<longrightarrow>
      (\<forall>r\<in>set positions.
          length (neighbors (b r)) = 20 \<and> distinct (neighbors (b r))
          \<and> set (neighbors (b r)) =
              {r' \<in> set positions. r' \<noteq> r
                 \<and> (fst r' = fst r \<or> snd r' = snd r
                    \<or> (fst r' div 3 = fst r div 3 \<and> snd r' div 3 = snd r div 3))})
      \<and> (\<forall>r\<in>set positions. \<forall>r'\<in>set positions.
            r \<in> set (neighbors (b r')) \<longleftrightarrow> r' \<in> set (neighbors (b r))))
   \<and> (backtrack_with_min_val d s = (res, s', tr) \<longrightarrow>
      (\<forall>r. neighbors (s' r) = neighbors (s r))
      \<and> (\<forall>t\<in>set tr. \<forall>r. neighbors (t r) = neighbors (s r)))
   \<and> (\<forall>r. neighbors (snd (find_less_poss s) r) = neighbors (s r)
          \<and> neighbors (snd (initial_values s nbrs c) r) = neighbors (s r)
          \<and> neighbors (set_current s c v r) = neighbors (s r))"
proof (intro conjI impI)
  assume h: "main_setup puzzle = Inr b"
  from main_setup_Inr [OF h] have a: "accepted puzzle" and e: "b = board_of puzzle"
    by simp_all
  have nb: "neighbors (b r) = peers_list r" if "r \<in> set positions" for r
    unfolding e using a that by (rule board_of_neighbors)
  show "\<forall>r\<in>set positions.
          length (neighbors (b r)) = 20 \<and> distinct (neighbors (b r))
          \<and> set (neighbors (b r)) =
              {r' \<in> set positions. r' \<noteq> r
                 \<and> (fst r' = fst r \<or> snd r' = snd r
                    \<or> (fst r' div 3 = fst r div 3 \<and> snd r' div 3 = snd r div 3))}"
  proof
    fix r assume r: "r \<in> set positions"
    have "set (peers_list r) = {r' \<in> set positions. r' \<noteq> r
                 \<and> (fst r' = fst r \<or> snd r' = snd r
                    \<or> (fst r' div 3 = fst r div 3 \<and> snd r' div 3 = snd r div 3))}"
      unfolding peers_list_set related_unfold ..
    with peers_list_length r peers_list_distinct [of r]
    show "length (neighbors (b r)) = 20 \<and> distinct (neighbors (b r))
          \<and> set (neighbors (b r)) =
              {r' \<in> set positions. r' \<noteq> r
                 \<and> (fst r' = fst r \<or> snd r' = snd r
                    \<or> (fst r' div 3 = fst r div 3 \<and> snd r' div 3 = snd r div 3))}"
      by (simp add: nb [OF r])
  qed
  show "\<forall>r\<in>set positions. \<forall>r'\<in>set positions.
            r \<in> set (neighbors (b r')) \<longleftrightarrow> r' \<in> set (neighbors (b r))"
  proof (intro ballI)
    fix r r' assume r: "r \<in> set positions" and r': "r' \<in> set positions"
    show "r \<in> set (neighbors (b r')) \<longleftrightarrow> r' \<in> set (neighbors (b r))"
      using r r' related_sym [of r r'] by (simp add: nb peers_list_set)
  qed
next
  assume h: "backtrack_with_min_val d s = (res, s', tr)"
  from search_post_graph [OF backtrack_post [OF h]]
  have g: "same_graph s s'" and gs: "\<forall>t\<in>set tr. same_graph s t" by simp_all
  show "\<forall>r. neighbors (s' r) = neighbors (s r)"
    using g by (simp add: same_graph_neighbors)
  show "\<forall>t\<in>set tr. \<forall>r. neighbors (t r) = neighbors (s r)"
    using gs by (simp add: same_graph_neighbors)
next
  show "\<forall>r. neighbors (snd (find_less_poss s) r) = neighbors (s r)
          \<and> neighbors (snd (initial_values s nbrs c) r) = neighbors (s r)
          \<and> neighbors (set_current s c v r) = neighbors (s r)"
  proof
    fix r
    from find_less_poss_eq [of s] obtain mc where "find_less_poss s = (mc, refresh s positions)"
      by blast
    then show "neighbors (snd (find_less_poss s) r) = neighbors (s r)
          \<and> neighbors (snd (initial_values s nbrs c) r) = neighbors (s r)
          \<and> neighbors (set_current s c v r) = neighbors (s r)"
      by simp
  qed
qed

text \<open>
  C8. With more stack frames than the board has unassigned cells the search returns
  \<open>True\<close> or \<open>False\<close>, and the result is the one computed with exactly one frame more
  than there are unassigned cells. A board has at most 81 unassigned cells, so 82
  frames always suffice. Every value the loop assigns is nonzero and goes to a cell
  that was unassigned, so each recursive call has one unassigned cell less.
\<close>

theorem search_terminates:
  "(n_unassigned b < d \<longrightarrow>
      (fst (backtrack_with_min_val d b) = Inr True \<or> fst (backtrack_with_min_val d b) = Inr False)
      \<and> backtrack_with_min_val d b = backtrack_with_min_val (Suc (n_unassigned b)) b)
   \<and> n_unassigned b \<le> 81
   \<and> (fst (backtrack_with_min_val 82 b) = Inr True \<or> fst (backtrack_with_min_val 82 b) = Inr False)
   \<and> (find_less_poss b = (Some m, b1) \<and> v \<in> set (ordered_values b1 m) \<longrightarrow>
        v \<noteq> 0 \<and> cur_val (b1 m) = 0 \<and> Suc (n_unassigned (set_current b1 m v)) = n_unassigned b)"
proof (intro conjI impI)
  have r: "fst (backtrack_with_min_val k b) = Inr True \<or> fst (backtrack_with_min_val k b) = Inr False"
    if "n_unassigned b < k" for k
    using backtrack_returns [OF that] by auto
  show "fst (backtrack_with_min_val d b) = Inr True \<or> fst (backtrack_with_min_val d b) = Inr False"
    if "n_unassigned b < d" using r [OF that] .
  show "backtrack_with_min_val d b = backtrack_with_min_val (Suc (n_unassigned b)) b"
    if "n_unassigned b < d" using that by (rule backtrack_fuel_enough)
  show le: "n_unassigned b \<le> 81" by (rule n_unassigned_le)
  from le have "n_unassigned b < 82" by simp
  then show "fst (backtrack_with_min_val 82 b) = Inr True \<or> fst (backtrack_with_min_val 82 b) = Inr False"
    by (rule r)
next
  assume a: "find_less_poss b = (Some m, b1) \<and> v \<in> set (ordered_values b1 m)"
  from find_less_poss_eq [of b] a obtain ml where b1: "b1 = refresh b positions"
    and i: "scan_inv b positions ml (Some m)"
    by auto
  from i have "m \<in> set (unassigned b positions)"
    by (auto simp: scan_inv_def split: if_splits)
  then have m: "m \<in> set positions" "cur_val (b m) = 0" by (simp_all add: unassigned_def)
  from a have "v \<in> set (fresh_domain b m)"
    using m by (simp add: b1 refresh_values)
  with fresh_domain_range [of b m] show v: "v \<noteq> 0" by auto
  show "cur_val (b1 m) = 0" using m by (simp add: b1)
  have "n_unassigned (set_current b1 m v) = others_unassigned b1 m"
    using v by (rule n_unassigned_set_current)
  also have "\<dots> = others_unassigned b m"
    unfolding b1 by (rule others_unassigned_cong) simp
  finally show "Suc (n_unassigned (set_current b1 m v)) = n_unassigned b"
    using n_unassigned_split [of m b, OF m] by simp
qed

text \<open>
  C9. \<open>fill_initial_board\<close> raises exactly when some symbol other than a dot is not a
  decimal digit or stands at index 81 or later; the exception is IndexError or
  ValueError, and the set-up of \<open>main\<close> raises for the same strings, before any search.
  A well-formed string of 81 symbols is accepted: every cell with a clue digit gets
  that digit (a value in 1..9), every other cell is left as it was, which on a fresh
  board is 0.
\<close>

theorem fill_initial_board_signals:
  "((\<exists>e. fill_initial_board b s = Inl e) \<longleftrightarrow>
      (\<exists>k<length s. s ! k \<noteq> CHR ''.'' \<and> (81 \<le> k \<or> \<not> is_digit (s ! k))))
   \<and> (fill_initial_board b s = Inl e \<longrightarrow> e = IndexError \<or> e = ValueError)
   \<and> ((\<exists>e. main_setup s = Inl e) \<longleftrightarrow> (\<exists>e. fill_initial_board b s = Inl e))
   \<and> (well_formed s \<longrightarrow>
        (\<exists>b'. fill_initial_board b s = Inr b'
           \<and> (\<forall>r. b' r = (if r \<in> set positions \<and> s ! cell_index r \<noteq> CHR ''.''
                           then (b r)\<lparr>cur_val := digit_val (s ! cell_index r)\<rparr> else b r))
           \<and> (\<forall>r\<in>set positions. s ! cell_index r \<noteq> CHR ''.'' \<longrightarrow>
                 1 \<le> cur_val (b' r) \<and> cur_val (b' r) \<le> 9
                 \<and> int_of_char (s ! cell_index r) = Inr (cur_val (b' r))))
        \<and> (\<exists>b'. fill_initial_board Board s = Inr b'
           \<and> (\<forall>r\<in>set positions. s ! cell_index r = CHR ''.'' \<longrightarrow> cur_val (b' r) = 0)))"
proof -
  have acc: "accepted s \<longleftrightarrow> \<not> (\<exists>k<length s. s ! k \<noteq> CHR ''.'' \<and> (81 \<le> k \<or> \<not> is_digit (s ! k)))"
    unfolding accepted_def accepted_from_iff by (auto simp: not_le)
  have fail: "(\<exists>e. fill_initial_board c s = Inl e) \<longleftrightarrow> \<not> accepted s" for c
    using fill_initial_board_accepted [of s c] fill_initial_board_rejected [of s c] by auto
  have 1: "(\<exists>e. fill_initial_board b s = Inl e) \<longleftrightarrow>
      (\<exists>k<length s. s ! k \<noteq> CHR ''.'' \<and> (81 \<le> k \<or> \<not> is_digit (s ! k)))"
    unfolding fail acc by simp
  have 2: "fill_initial_board b s = Inl e \<longrightarrow> e = IndexError \<or> e = ValueError"
  proof
    assume h: "fill_initial_board b s = Inl e"
    with fill_initial_board_accepted [of s b] have "\<not> accepted s" by auto
    from fill_initial_board_rejected [OF this, of b] h
    show "e = IndexError \<or> e = ValueError" by auto
  qed
  have "(\<exists>e. main_setup s = Inl e) \<longleftrightarrow> \<not> accepted s"
    using main_setup_accepted [of s] main_setup_rejected [of s] by auto
  then have 3: "(\<exists>e. main_setup s = Inl e) \<longleftrightarrow> (\<exists>e. fill_initial_board b s = Inl e)"
    unfolding fail .
  have 4: "(\<exists>b'. fill_initial_board b s = Inr b'
           \<and> (\<forall>r. b' r = (if r \<in> set positions \<and> s ! cell_index r \<noteq> CHR ''.''
                           then (b r)\<lparr>cur_val := digit_val (s ! cell_index r)\<rparr> else b r))
           \<and> (\<forall>r\<in>set positions. s ! cell_index r \<noteq> CHR ''.'' \<longrightarrow>
                 1 \<le> cur_val (b' r) \<and> cur_val (b' r) \<le> 9
                 \<and> int_of_char (s ! cell_index r) = Inr (cur_val (b' r))))
        \<and> (\<exists>b'. fill_initial_board Board s = Inr b'
           \<and> (\<forall>r\<in>set positions. s ! cell_index r = CHR ''.'' \<longrightarrow> cur_val (b' r) = 0))"
    if w: "well_formed s"
  proof -
    from w have a: "accepted s" by (rule well_formed_accepted)
    from w have len: "length s = 81" and al: "\<And>c. c \<in> set s \<Longrightarrow> c \<in> set ''.123456789''"
      by (simp_all add: well_formed_def)
    have idx: "cell_index r < length s" if "r \<in> set positions" for r
      using cell_index_grid [OF that] len by simp
    have f: "filled c s r = (if r \<in> set positions \<and> s ! cell_index r \<noteq> CHR ''.''
                           then (c r)\<lparr>cur_val := digit_val (s ! cell_index r)\<rparr> else c r)" for c r
      using idx [of r] by (simp add: filled_def filled_from_def)
    have dg: "1 \<le> digit_val (s ! cell_index r) \<and> digit_val (s ! cell_index r) \<le> 9
              \<and> int_of_char (s ! cell_index r) = Inr (digit_val (s ! cell_index r))"
      if "r \<in> set positions" "s ! cell_index r \<noteq> CHR ''.''" for r
    proof -
      from idx [OF that(1)] have "s ! cell_index r \<in> set s" by simp
      from al [OF this] that(2) have c: "s ! cell_index r \<in> set ''123456789''" by auto
      then have "is_digit (s ! cell_index r)" by (auto simp: is_digit_def)
      with digit_val_clue [OF c] show ?thesis by (simp add: int_of_char_digit)
    qed
    have z: "cur_val (Board r) = 0" for r
      by (simp add: Board_def Cell_def split: prod.split)
    have "fill_initial_board b s = Inr (filled b s)"
      "fill_initial_board Board s = Inr (filled Board s)"
      using a by (simp_all add: fill_initial_board_accepted)
    moreover have "\<forall>r\<in>set positions. s ! cell_index r \<noteq> CHR ''.'' \<longrightarrow>
                 1 \<le> cur_val (filled b s r) \<and> cur_val (filled b s r) \<le> 9
                 \<and> int_of_char (s ! cell_index r) = Inr (cur_val (filled b s r))"
      using dg by (simp add: f)
    moreover have "\<forall>r\<in>set positions. s ! cell_index r = CHR ''.'' \<longrightarrow> cur_val (filled Board s r) = 0"
      by (simp add: f z)
    ultimately show ?thesis using f by blast
  qed
  from 1 2 3 4 show ?thesis by blast
qed

text \<open>
  C10. On a solved board the search returns \<open>True\<close> at once. On a board that is not
  solved some cell of the grid has value 0 and \<open>find_less_poss\<close> returns such a cell;
  it returns \<open>None\<close> only on a solved board. Hence no call of the search raises the
  AttributeError of reading a field of \<open>None\<close>.
\<close>

theorem find_less_poss_returns_cell:
  "(board_is_solved b \<longrightarrow> backtrack_with_min_val (Suc d) b = (Inr True, b, []))
   \<and> (\<not> board_is_solved b \<longrightarrow>
        (\<exists>r\<in>set positions. cur_val (b r) = 0)
        \<and> (\<exists>m b1. find_less_poss b = (Some m, b1) \<and> m \<in> set positions \<and> cur_val (b m) = 0))
   \<and> (fst (find_less_poss b) = None \<longleftrightarrow> board_is_solved b)
   \<and> fst (backtrack_with_min_val d b) \<noteq> Inl AttributeError"
proof (intro conjI impI)
  show "backtrack_with_min_val (Suc d) b = (Inr True, b, [])" if "board_is_solved b"
    using that by (rule backtrack_solved)
  show "\<exists>r\<in>set positions. cur_val (b r) = 0" if "\<not> board_is_solved b"
    using that by (auto simp: board_is_solved_def list_all_iff)
  show "\<exists>m b1. find_less_poss b = (Some m, b1) \<and> m \<in> set positions \<and> cur_val (b m) = 0"
    if "\<not> board_is_solved b"
    using find_less_poss_unsolved [OF that] by blast
  show "fst (find_less_poss b) = None \<longleftrightarrow> board_is_solved b"
  proof
    assume n: "fst (find_less_poss b) = None"
    show "board_is_solved b"
    proof (rule ccontr)
      assume "\<not> board_is_solved b"
      from find_less_poss_unsolved [OF this] obtain m where
        "find_less_poss b = (Some m, refresh b positions)" by blast
      with n show False by simp
    qed
  next
    assume s: "board_is_solved b"
    from find_less_poss_eq [of b] obtain ml mc where
      f: "find_less_poss b = (mc, refresh b positions)" and i: "scan_inv b positions ml mc"
      by blast
    from i s have "mc = None" by (simp add: scan_inv_def board_is_solved_iff)
    with f show "fst (find_less_poss b) = None" by simp
  qed
  obtain res b' tr where h: "backtrack_with_min_val d b = (res, b', tr)"
    by (cases "backtrack_with_min_val d b") auto
  from backtrack_post [OF h] have "e = RecursionError" if "res = Inl e" for e
    using that search_post_error by blast
  with h show "fst (backtrack_with_min_val d b) \<noteq> Inl AttributeError" by auto
qed

end
